theory Spec2Isabelle
  imports Main "HOL-Library.Word"
begin

unbundle bit_operations_syntax

section \<open>JavaScript values used by the codec\<close>

text \<open>
  A JavaScript string is a sequence of UTF-16 code units, \<open>string[i]\<close> is the code unit at
  position \<open>i\<close> and \<open>string.length\<close> counts code units. A \<open>Uint8Array\<close> is a sequence of
  bytes. The type guards of the source (\<open>PrimitivesIsString\<close>, \<open>InstancesIsUint8Array\<close>,
  \<open>String(string)\<close>) are discharged by the types of the model.
\<close>

type_synonym jschar = "16 word"
type_synonym jsstring = "jschar list"
type_synonym byte = "8 word"

definition jschr :: "char \<Rightarrow> jschar" where
  "jschr c = of_nat (of_char c)"

definition jsstr :: "string \<Rightarrow> jsstring" where
  "jsstr s = map jschr s"

text \<open>
  The result of \<open>TypesToIntegerOrInfinity\<close>: an integer, or one of the two infinities
  (\<open>NaN\<close> is coerced to \<open>0\<close>). Integers are modelled exactly; the source computes with
  doubles, which are exact on integers of magnitude up to \<open>2 ^ 53\<close>.
\<close>

datatype jsint = Finite int | PosInfinity | NegInfinity

datatype range_message =
    AlphabetLength
  | BelowMinSafeInteger
  | AboveMaxSafeInteger
  | InvalidTypedArrayLength

datatype syntax_message =
    InvalidAlphabetCharacter jschar nat
  | AlreadyInAlphabet jschar nat
  | InvalidCharacter jschar nat
  | InvalidByte byte nat

datatype error = RangeError range_message | SyntaxError syntax_message

subsection \<open>The 32-bit operators\<close>

text \<open>
  \<open>x << n\<close>, \<open>x >> n\<close>, \<open>x & y\<close> and \<open>x | y\<close> convert their operands with \<open>ToInt32\<close>
  and give a signed 32-bit result. All shift counts of the source are literals below 32.
\<close>

definition js_shl :: "int \<Rightarrow> nat \<Rightarrow> int" where
  "js_shl x n = sint (push_bit n (word_of_int x :: 32 word))"

definition js_shr :: "int \<Rightarrow> nat \<Rightarrow> int" where
  "js_shr x n = sint (signed_drop_bit n (word_of_int x :: 32 word))"

definition js_and :: "int \<Rightarrow> int \<Rightarrow> int" where
  "js_and x y = sint ((word_of_int x :: 32 word) AND word_of_int y)"

definition js_or :: "int \<Rightarrow> int \<Rightarrow> int" where
  "js_or x y = sint ((word_of_int x :: 32 word) OR word_of_int y)"

text \<open>
  \<open>new Uint8Array(a / b)\<close> with a positive literal \<open>b\<close>: the quotient is a double, the
  constructor truncates it towards zero and raises \<open>RangeError\<close> when the truncated length
  is negative.
\<close>

definition js_trunc_quotient :: "int \<Rightarrow> nat \<Rightarrow> int" where
  "js_trunc_quotient a b = (if 0 \<le> a then a div int b else - ((- a) div int b))"

definition new_Uint8Array :: "int \<Rightarrow> error + byte list" where
  "new_Uint8Array len =
     (if len < 0 then Inl (RangeError InvalidTypedArrayLength)
      else Inr (replicate (nat len) 0))"

section \<open>Constants\<close>

abbreviation BASE :: nat where
  "BASE \<equiv> 64"

definition ALPHABET :: jsstring where
  "ALPHABET = jsstr ''ABCDEFGHIJKLMNOPQRSTUVWXYZabcdefghijklmnopqrstuvwxyz0123456789+/''"

definition PADDING_CHAR :: jschar where
  "PADDING_CHAR = jschr CHR ''=''"

definition NEGATIVE_CHAR :: jschar where
  "NEGATIVE_CHAR = jschr CHR ''-''"

definition NumberMAX_SAFE_INTEGER :: int where
  "NumberMAX_SAFE_INTEGER = 9007199254740991"

definition NumberMIN_SAFE_INTEGER :: int where
  "NumberMIN_SAFE_INTEGER = - 9007199254740991"

section \<open>The alphabet table\<close>

text \<open>
  \<open>createAlphabetLookups\<close> fills three tables in one loop over \<open>i = 0 .. BASE - 1\<close>:
  \<open>lookup[char] = i\<close>, \<open>baseMap[i] = charCode\<close> (a store into a \<open>Uint8Array\<close>, which keeps
  the low 8 bits) and \<open>baseMapLookup[charCode] = i\<close>.
\<close>

definition createAlphabetLookups ::
  "jsstring \<Rightarrow> (jschar \<rightharpoonup> nat) \<times> byte list \<times> (nat \<rightharpoonup> nat)" where
  "createAlphabetLookups alphabet =
     fold (\<lambda>i (lookup, baseMap, baseMapLookup).
             let char = alphabet ! i;
                 charCode = unat char
             in (lookup(char \<mapsto> i), baseMap[i := of_nat charCode], baseMapLookup(charCode \<mapsto> i)))
          [0..<BASE] (Map.empty, replicate BASE 0, Map.empty)"

record Base64 =
  alphabetSymbol :: jsstring
  alphabetLookupSymbol :: "jschar \<rightharpoonup> nat"
  baseMapSymbol :: "byte list"
  baseMapLookupSymbol :: "nat \<rightharpoonup> nat"

text \<open>The body of the constructor after \<open>toAlphabet\<close> has returned the alphabet.\<close>

definition Base64_init :: "jsstring \<Rightarrow> Base64" where
  "Base64_init alphabet =
     (case createAlphabetLookups alphabet of
        (lookup, baseMap, baseMapLookup) \<Rightarrow>
          \<lparr>alphabetSymbol = alphabet, alphabetLookupSymbol = lookup,
           baseMapSymbol = baseMap, baseMapLookupSymbol = baseMapLookup\<rparr>)"

text \<open>
  The default instance \<open>base64 = new Base64()\<close>: \<open>toAlphabet(undefined)\<close> returns
  \<open>ALPHABET\<close> before it reads the default instance, so the instance is the constructor's
  body at \<open>ALPHABET\<close>.
\<close>

definition base64 :: Base64 where
  "base64 = Base64_init ALPHABET"

function isAlphabet_loop :: "jsstring \<Rightarrow> nat \<Rightarrow> (jschar \<rightharpoonup> nat) \<Rightarrow> bool" where
  "isAlphabet_loop v i uniqueCharsLookup =
     (if i < BASE then
        let char = v ! i in
        if alphabetLookupSymbol base64 char = None \<or> uniqueCharsLookup char \<noteq> None then False
        else isAlphabet_loop v (i + 1) (uniqueCharsLookup(char \<mapsto> i))
      else True)"
  by pat_completeness auto
termination
  by (relation "measure (\<lambda>(v, i, u). BASE - i)") auto

declare isAlphabet_loop.simps [simp del]

definition isAlphabet :: "jsstring \<Rightarrow> bool" where
  "isAlphabet v = (if length v \<noteq> BASE then False else isAlphabet_loop v 0 Map.empty)"

function toAlphabet_loop :: "jsstring \<Rightarrow> nat \<Rightarrow> (jschar \<rightharpoonup> nat) \<Rightarrow> error + jsstring" where
  "toAlphabet_loop v i uniqueCharsLookup =
     (if i < BASE then
        let char = v ! i in
        if alphabetLookupSymbol base64 char = None then
          Inl (SyntaxError (InvalidAlphabetCharacter char i))
        else if uniqueCharsLookup char \<noteq> None then
          Inl (SyntaxError (AlreadyInAlphabet char i))
        else toAlphabet_loop v (i + 1) (uniqueCharsLookup(char \<mapsto> i))
      else Inr v)"
  by pat_completeness auto
termination
  by (relation "measure (\<lambda>(v, i, u). BASE - i)") auto

declare toAlphabet_loop.simps [simp del]

text \<open>The argument is \<open>None\<close> for \<open>undefined\<close>.\<close>

fun toAlphabet :: "jsstring option \<Rightarrow> error + jsstring" where
  "toAlphabet None = Inr ALPHABET"
| "toAlphabet (Some v) =
     (if length v \<noteq> BASE then Inl (RangeError AlphabetLength)
      else toAlphabet_loop v 0 Map.empty)"

definition new_Base64 :: "jsstring option \<Rightarrow> error + Base64" where
  "new_Base64 alphabet =
     (case toAlphabet alphabet of
        Inl e \<Rightarrow> Inl e
      | Inr a \<Rightarrow> Inr (Base64_init a))"

section \<open>The numeral codec\<close>

text \<open>
  The loops of \<open>encodeInt\<close> and \<open>encodeBigInt\<close> run on the magnitude, after the sign has
  been removed: a natural number. \<open>MathFloor(number / BASE)\<close> and \<open>bigInt /= 64n\<close> are
  both the integer quotient there.
\<close>

function encodeInt_loop :: "jsstring \<Rightarrow> nat \<Rightarrow> jsstring \<Rightarrow> jsstring" where
  "encodeInt_loop alphabet number result =
     (if number \<noteq> 0 then
        encodeInt_loop alphabet (number div BASE) (alphabet ! (number mod BASE) # result)
      else result)"
  by pat_completeness auto
termination
  by (relation "measure (\<lambda>(a, number, r). number)") auto

declare encodeInt_loop.simps [simp del]

fun encodeInt :: "Base64 \<Rightarrow> jsint \<Rightarrow> error + jsstring" where
  "encodeInt this NegInfinity = Inl (RangeError BelowMinSafeInteger)"
| "encodeInt this PosInfinity = Inl (RangeError AboveMaxSafeInteger)"
| "encodeInt this (Finite number) =
     (if number < NumberMIN_SAFE_INTEGER then Inl (RangeError BelowMinSafeInteger)
      else if number > NumberMAX_SAFE_INTEGER then Inl (RangeError AboveMaxSafeInteger)
      else
        let alphabet = alphabetSymbol this in
        if number = 0 then Inr [alphabet ! 0]
        else
          let isNegative = number < 0;
              number = (if isNegative then - number else number);
              result = encodeInt_loop alphabet (nat number) []
          in Inr (if isNegative then NEGATIVE_CHAR # result else result))"

text \<open>
  \<open>string[0] === NEGATIVE_CHAR\<close> is false on the empty string, where \<open>string[0]\<close> is
  \<open>undefined\<close>. The sign is skipped only when another character follows it. The
  accumulator is an exact integer, where the source has a double: the two agree as long as
  the accumulated value is at most \<open>2 ^ 53\<close>, which covers the encodings of all safe
  integers.
\<close>

function decodeInt_loop :: "(jschar \<rightharpoonup> nat) \<Rightarrow> jsstring \<Rightarrow> nat \<Rightarrow> int \<Rightarrow> error + int" where
  "decodeInt_loop alphabetLookup string i result =
     (if i < length string then
        let char = string ! i in
        case alphabetLookup char of
          None \<Rightarrow> Inl (SyntaxError (InvalidCharacter char i))
        | Some index \<Rightarrow> decodeInt_loop alphabetLookup string (i + 1) (result * int BASE + int index)
      else Inr result)"
  by pat_completeness auto
termination
  by (relation "measure (\<lambda>(l, string, i, r). length string - i)") auto

declare decodeInt_loop.simps [simp del]

definition decodeInt :: "Base64 \<Rightarrow> jsstring \<Rightarrow> error + int" where
  "decodeInt this string =
     (let alphabetLookup = alphabetLookupSymbol this;
          isNegative = (string \<noteq> [] \<and> string ! 0 = NEGATIVE_CHAR)
      in case decodeInt_loop alphabetLookup string
                (if isNegative \<and> length string > 1 then 1 else 0) 0 of
           Inl e \<Rightarrow> Inl e
         | Inr result \<Rightarrow> Inr (if isNegative \<and> result > 0 then - result else result))"

text \<open>
  \<open>encodeBigInt\<close> receives the \<open>BigInt\<close> that \<open>TypesToBigInt\<close> returns; on a \<open>BigInt\<close>
  argument that coercion is the identity.
\<close>

definition encodeBigInt :: "Base64 \<Rightarrow> int \<Rightarrow> error + jsstring" where
  "encodeBigInt this bigInt =
     (let alphabet = alphabetSymbol this in
      if bigInt = 0 then Inr [alphabet ! 0]
      else
        let isNegative = bigInt < 0;
            bigInt = (if isNegative then - bigInt else bigInt);
            result = encodeInt_loop alphabet (nat bigInt) []
        in Inr (if isNegative then NEGATIVE_CHAR # result else result))"

definition decodeBigInt :: "Base64 \<Rightarrow> jsstring \<Rightarrow> error + int" where
  "decodeBigInt this string =
     (let alphabetLookup = alphabetLookupSymbol this;
          isNegative = (string \<noteq> [] \<and> string ! 0 = NEGATIVE_CHAR)
      in case decodeInt_loop alphabetLookup string
                (if isNegative \<and> length string > 1 then 1 else 0) 0 of
           Inl e \<Rightarrow> Inl e
         | Inr result \<Rightarrow> Inr (if isNegative then - result else result))"

section \<open>Range selection\<close>

text \<open>
  Every buffer and text transform starts with the same lines. With \<open>length\<close> the length of
  the input, an argument that is not \<open>undefined\<close> is coerced by \<open>TypesToIntegerOrInfinity\<close>
  and becomes \<open>arg < 0 ? MathMax(0, length + arg) : MathMin(arg, length)\<close>; then
  \<open>newLength = MathMax(0, endIndex - startIndex)\<close>. The arguments of the model are the
  coerced values, \<open>None\<close> for \<open>undefined\<close>.
\<close>

fun rangeIndex :: "nat \<Rightarrow> jsint \<Rightarrow> nat" where
  "rangeIndex len (Finite i) =
     (if i < 0 then nat (max 0 (int len + i)) else nat (min i (int len)))"
| "rangeIndex len PosInfinity = len"
| "rangeIndex len NegInfinity = 0"

definition startIndexOf :: "nat \<Rightarrow> jsint option \<Rightarrow> nat" where
  "startIndexOf len start = (case start of None \<Rightarrow> 0 | Some s \<Rightarrow> rangeIndex len s)"

definition endIndexOf :: "nat \<Rightarrow> jsint option \<Rightarrow> nat" where
  "endIndexOf len end = (case end of None \<Rightarrow> len | Some e \<Rightarrow> rangeIndex len e)"

section \<open>The buffer codec\<close>

subsection \<open>Encoding\<close>

text \<open>
  \<open>encode\<close> allocates \<open>new Uint8Array((newLength << 2 | 2) / 3)\<close> and fills it by index;
  a store past the end of a typed array is ignored, as \<open>xs[i := v]\<close> is. The reads
  \<open>input[index]\<close> stay below \<open>extraLength\<close>, inside the input. Natural-number subtraction
  is \<open>MathMax(0, endIndex - startIndex)\<close> for \<open>newLength\<close>, and is exact for
  \<open>extraLength = endIndex - extraBytes\<close>, where \<open>extraBytes \<le> newLength \<le> endIndex\<close>.
\<close>

function encode_loop ::
  "byte list \<Rightarrow> byte list \<Rightarrow> nat \<Rightarrow> nat \<Rightarrow> nat \<Rightarrow> byte list \<Rightarrow> nat \<times> nat \<times> byte list" where
  "encode_loop baseMap input extraLength index resultIndex result =
     (if index < extraLength then
        let number = js_shl (uint (input ! index)) 16 + js_shl (uint (input ! (index + 1))) 8
                     + uint (input ! (index + 2));
            result = result[resultIndex := baseMap ! nat (js_and (js_shr number 18) 0x3f)];
            result = result[resultIndex + 1 := baseMap ! nat (js_and (js_shr number 12) 0x3f)];
            result = result[resultIndex + 2 := baseMap ! nat (js_and (js_shr number 6) 0x3f)];
            result = result[resultIndex + 3 := baseMap ! nat (js_and number 0x3f)]
        in encode_loop baseMap input extraLength (index + 3) (resultIndex + 4) result
      else (index, resultIndex, result))"
  by pat_completeness auto
termination
  by (relation "measure (\<lambda>(b, i, extraLength, index, r). extraLength - index)") auto

declare encode_loop.simps [simp del]

definition encode :: "Base64 \<Rightarrow> byte list \<Rightarrow> jsint option \<Rightarrow> jsint option \<Rightarrow> error + byte list" where
  "encode this input start end =
     (let baseMap = baseMapSymbol this;
          len = length input;
          startIndex = startIndexOf len start;
          endIndex = endIndexOf len end;
          newLength = endIndex - startIndex;
          extraBytes = newLength mod 3;
          extraLength = endIndex - extraBytes
      in case new_Uint8Array (js_trunc_quotient (js_or (js_shl (int newLength) 2) 2) 3) of
           Inl e \<Rightarrow> Inl e
         | Inr result \<Rightarrow>
            (case encode_loop baseMap input extraLength startIndex 0 result of
               (index, resultIndex, result) \<Rightarrow>
                 if extraBytes = 1 then
                   let number = uint (input ! index);
                       result = result[resultIndex := baseMap ! nat (js_shr number 2)];
                       result = result[resultIndex + 1 :=
                                         baseMap ! nat (js_and (js_shl number 4) 0x3f)]
                   in Inr result
                 else if extraBytes = 2 then
                   let number = js_shl (uint (input ! index)) 8 + uint (input ! (index + 1));
                       result = result[resultIndex := baseMap ! nat (js_shr number 10)];
                       result = result[resultIndex + 1 :=
                                         baseMap ! nat (js_and (js_shr number 4) 0x3f)];
                       result = result[resultIndex + 2 :=
                                         baseMap ! nat (js_and (js_shl number 2) 0x3f)]
                   in Inr result
                 else Inr result))"

text \<open>
  \<open>[encodeToStringSymbol]\<close> builds a string by concatenation and appends
  \<open>3 - extraBytes\<close> padding characters after a partial group.
\<close>

function encodeToString_loop ::
  "jsstring \<Rightarrow> byte list \<Rightarrow> nat \<Rightarrow> nat \<Rightarrow> jsstring \<Rightarrow> nat \<times> jsstring" where
  "encodeToString_loop alphabet input extraLength index result =
     (if index < extraLength then
        let number = js_shl (uint (input ! index)) 16 + js_shl (uint (input ! (index + 1))) 8
                     + uint (input ! (index + 2));
            result = result @ [alphabet ! nat (js_and (js_shr number 18) 0x3f)];
            result = result @ [alphabet ! nat (js_and (js_shr number 12) 0x3f)];
            result = result @ [alphabet ! nat (js_and (js_shr number 6) 0x3f)];
            result = result @ [alphabet ! nat (js_and number 0x3f)]
        in encodeToString_loop alphabet input extraLength (index + 3) result
      else (index, result))"
  by pat_completeness auto
termination
  by (relation "measure (\<lambda>(a, i, extraLength, index, r). extraLength - index)") auto

declare encodeToString_loop.simps [simp del]

definition encodeToStringSymbol ::
  "Base64 \<Rightarrow> byte list \<Rightarrow> jsint option \<Rightarrow> jsint option \<Rightarrow> jsstring" where
  "encodeToStringSymbol this input start end =
     (let alphabet = alphabetSymbol this;
          len = length input;
          startIndex = startIndexOf len start;
          endIndex = endIndexOf len end;
          newLength = endIndex - startIndex;
          extraBytes = newLength mod 3;
          extraLength = endIndex - extraBytes
      in case encodeToString_loop alphabet input extraLength startIndex [] of
           (index, result) \<Rightarrow>
             if extraBytes \<noteq> 0 then
               (if extraBytes = 1 then
                  let number = uint (input ! index);
                      result = result @ [alphabet ! nat (js_shr number 2)];
                      result = result @ [alphabet ! nat (js_and (js_shl number 4) 0x3f)]
                  in result
                else if extraBytes = 2 then
                  let number = js_shl (uint (input ! index)) 8 + uint (input ! (index + 1));
                      result = result @ [alphabet ! nat (js_shr number 10)];
                      result = result @ [alphabet ! nat (js_and (js_shr number 4) 0x3f)];
                      result = result @ [alphabet ! nat (js_and (js_shl number 2) 0x3f)]
                  in result
                else result)
               @ replicate (3 - extraBytes) PADDING_CHAR
             else result)"

definition encodeToString ::
  "Base64 \<Rightarrow> byte list \<Rightarrow> jsint option \<Rightarrow> jsint option \<Rightarrow> jsstring" where
  "encodeToString this input start end = encodeToStringSymbol this input start end"

subsection \<open>Decoding\<close>

text \<open>
  \<open>decode\<close> and \<open>[decodeFromStringSymbol]\<close> run the same loop and the same code for the
  final partial group, the first on bytes with \<open>baseMapLookup\<close> and the message
  \<open>Invalid byte\<close>, the second on characters with \<open>alphabetLookup\<close> and the message
  \<open>Invalid character\<close>. The model states them once, with the lookup and the message as
  parameters. \<open>lookupAt\<close> is the repeated read, lookup and test for \<open>undefined\<close>.
\<close>

definition lookupAt ::
  "('a \<Rightarrow> nat option) \<Rightarrow> ('a \<Rightarrow> nat \<Rightarrow> syntax_message) \<Rightarrow> 'a list \<Rightarrow> nat \<Rightarrow> error + nat" where
  "lookupAt lookup invalid input index =
     (let char = input ! index in
      case lookup char of
        None \<Rightarrow> Inl (SyntaxError (invalid char index))
      | Some charIndex \<Rightarrow> Inr charIndex)"

function decode_loop ::
  "('a \<Rightarrow> nat option) \<Rightarrow> ('a \<Rightarrow> nat \<Rightarrow> syntax_message) \<Rightarrow> 'a list \<Rightarrow> nat \<Rightarrow> nat \<Rightarrow> nat \<Rightarrow>
   byte list \<Rightarrow> error + nat \<times> nat \<times> byte list" where
  "decode_loop lookup invalid input extraLength index resultIndex result =
     (if index < extraLength then
        case lookupAt lookup invalid input index of
          Inl e \<Rightarrow> Inl e
        | Inr charIndex \<Rightarrow>
        case lookupAt lookup invalid input (index + 1) of
          Inl e \<Rightarrow> Inl e
        | Inr charIndex2 \<Rightarrow>
        case lookupAt lookup invalid input (index + 2) of
          Inl e \<Rightarrow> Inl e
        | Inr charIndex3 \<Rightarrow>
        case lookupAt lookup invalid input (index + 3) of
          Inl e \<Rightarrow> Inl e
        | Inr charIndex4 \<Rightarrow>
          let number = js_shl (int charIndex) 18 + js_shl (int charIndex2) 12
                       + js_shl (int charIndex3) 6 + int charIndex4;
              result = result[resultIndex := of_int (js_and (js_shr number 16) 0xff)];
              result = result[resultIndex + 1 := of_int (js_and (js_shr number 8) 0xff)];
              result = result[resultIndex + 2 := of_int (js_and number 0xff)]
          in decode_loop lookup invalid input extraLength (index + 4) (resultIndex + 3) result
      else Inr (index, resultIndex, result))"
  by pat_completeness auto
termination
  by (relation "measure (\<lambda>(l, m, i, extraLength, index, r). extraLength - index)") auto

declare decode_loop.simps [simp del]

definition decode_tail ::
  "('a \<Rightarrow> nat option) \<Rightarrow> ('a \<Rightarrow> nat \<Rightarrow> syntax_message) \<Rightarrow> 'a list \<Rightarrow> nat \<Rightarrow> nat \<Rightarrow> nat \<Rightarrow>
   byte list \<Rightarrow> error + byte list" where
  "decode_tail lookup invalid input extraBytes index resultIndex result =
     (if extraBytes = 1 then
        case lookupAt lookup invalid input index of
          Inl e \<Rightarrow> Inl e
        | Inr charIndex \<Rightarrow> Inr result
      else if extraBytes = 2 then
        case lookupAt lookup invalid input index of
          Inl e \<Rightarrow> Inl e
        | Inr charIndex \<Rightarrow>
        case lookupAt lookup invalid input (index + 1) of
          Inl e \<Rightarrow> Inl e
        | Inr charIndex2 \<Rightarrow>
          let number = js_shl (int charIndex) 2 + js_shr (int charIndex2) 4
          in Inr (result[resultIndex := of_int (js_and number 0xff)])
      else if extraBytes = 3 then
        case lookupAt lookup invalid input index of
          Inl e \<Rightarrow> Inl e
        | Inr charIndex \<Rightarrow>
        case lookupAt lookup invalid input (index + 1) of
          Inl e \<Rightarrow> Inl e
        | Inr charIndex2 \<Rightarrow>
        case lookupAt lookup invalid input (index + 2) of
          Inl e \<Rightarrow> Inl e
        | Inr charIndex3 \<Rightarrow>
          let number = js_shl (int charIndex) 10 + js_shl (int charIndex2) 4
                       + js_shr (int charIndex3) 2;
              result = result[resultIndex := of_int (js_and (js_shr number 8) 0xff)];
              result = result[resultIndex + 1 := of_int (js_and number 0xff)]
          in Inr result
      else Inr result)"

definition decode :: "Base64 \<Rightarrow> byte list \<Rightarrow> jsint option \<Rightarrow> jsint option \<Rightarrow> error + byte list" where
  "decode this input start end =
     (let baseMapLookup = baseMapLookupSymbol this;
          len = length input;
          startIndex = startIndexOf len start;
          endIndex = endIndexOf len end;
          newLength = endIndex - startIndex;
          extraBytes = newLength mod 4;
          extraLength = endIndex - extraBytes
      in case new_Uint8Array (js_shr (int newLength * 3) 2) of
           Inl e \<Rightarrow> Inl e
         | Inr result \<Rightarrow>
            (case decode_loop (\<lambda>charCode. baseMapLookup (unat charCode)) InvalidByte
                    input extraLength startIndex 0 result of
               Inl e \<Rightarrow> Inl e
             | Inr (index, resultIndex, result) \<Rightarrow>
                 decode_tail (\<lambda>charCode. baseMapLookup (unat charCode)) InvalidByte
                   input extraBytes index resultIndex result))"

text \<open>
  \<open>[decodeFromStringSymbol]\<close> first counts the padding characters at the end of the
  selected range, at most two and only when \<open>newLength % 4 === 0\<close>. The test
  \<open>paddingCount < newLength\<close> comes first and keeps \<open>lastIndex - paddingCount\<close> inside the
  string.
\<close>

function paddingCount_loop :: "jsstring \<Rightarrow> nat \<Rightarrow> int \<Rightarrow> nat \<Rightarrow> nat" where
  "paddingCount_loop string newLength lastIndex paddingCount =
     (if paddingCount < newLength \<and> paddingCount < 2
         \<and> string ! nat (lastIndex - int paddingCount) = PADDING_CHAR
      then paddingCount_loop string newLength lastIndex (paddingCount + 1)
      else paddingCount)"
  by pat_completeness auto
termination
  by (relation "measure (\<lambda>(s, n, l, paddingCount). 2 - paddingCount)") auto

declare paddingCount_loop.simps [simp del]

definition decodeFromStringSymbol ::
  "Base64 \<Rightarrow> jsstring \<Rightarrow> jsint option \<Rightarrow> jsint option \<Rightarrow> error + byte list" where
  "decodeFromStringSymbol this string start end =
     (let alphabetLookup = alphabetLookupSymbol this;
          len = length string;
          startIndex = startIndexOf len start;
          endIndex = endIndexOf len end;
          newLength = endIndex - startIndex;
          paddingCount = (if newLength mod 4 = 0
                          then paddingCount_loop string newLength (int endIndex - 1) 0 else 0);
          validLength = newLength - paddingCount;
          extraBytes = validLength mod 4;
          extraLength = startIndex + validLength - extraBytes
      in case new_Uint8Array (js_shr (int validLength * 3) 2) of
           Inl e \<Rightarrow> Inl e
         | Inr result \<Rightarrow>
            (case decode_loop alphabetLookup InvalidCharacter
                    string extraLength startIndex 0 result of
               Inl e \<Rightarrow> Inl e
             | Inr (index, resultIndex, result) \<Rightarrow>
                 decode_tail alphabetLookup InvalidCharacter
                   string extraBytes index resultIndex result))"

definition decodeFromString ::
  "Base64 \<Rightarrow> jsstring \<Rightarrow> jsint option \<Rightarrow> jsint option \<Rightarrow> error + byte list" where
  "decodeFromString this input start end = decodeFromStringSymbol this input start end"

section \<open>The text codec\<close>

text \<open>
  \<open>stringToUint8Array\<close> is \<open>TextEncoder.prototype.encode\<close> of the platform: the UTF-8
  encoding of the string's code points, where a surrogate pair is one code point and a
  lone surrogate is replaced by U+FFFD. It is modelled from the Encoding standard.
\<close>

definition utf8_2 :: "nat \<Rightarrow> byte list" where
  "utf8_2 u = [of_nat (0xC0 + u div 64), of_nat (0x80 + u mod 64)]"

definition utf8_3 :: "nat \<Rightarrow> byte list" where
  "utf8_3 u = [of_nat (0xE0 + u div 4096), of_nat (0x80 + u div 64 mod 64), of_nat (0x80 + u mod 64)]"

definition utf8_4 :: "nat \<Rightarrow> byte list" where
  "utf8_4 u = [of_nat (0xF0 + u div 262144), of_nat (0x80 + u div 4096 mod 64),
               of_nat (0x80 + u div 64 mod 64), of_nat (0x80 + u mod 64)]"

fun stringToUint8Array :: "jsstring \<Rightarrow> byte list" where
  "stringToUint8Array [] = []"
| "stringToUint8Array [c] =
     (let u = unat c in
      if u < 0x80 then [of_nat u]
      else if u < 0x800 then utf8_2 u
      else if 0xD800 \<le> u \<and> u < 0xE000 then utf8_3 0xFFFD
      else utf8_3 u)"
| "stringToUint8Array (c # d # cs) =
     (let u = unat c; l = unat d in
      if u < 0x80 then of_nat u # stringToUint8Array (d # cs)
      else if u < 0x800 then utf8_2 u @ stringToUint8Array (d # cs)
      else if 0xD800 \<le> u \<and> u < 0xDC00 \<and> 0xDC00 \<le> l \<and> l < 0xE000 then
        utf8_4 (0x10000 + (u - 0xD800) * 0x400 + (l - 0xDC00)) @ stringToUint8Array cs
      else if 0xD800 \<le> u \<and> u < 0xE000 then utf8_3 0xFFFD @ stringToUint8Array (d # cs)
      else utf8_3 u @ stringToUint8Array (d # cs))"

definition encodeText :: "Base64 \<Rightarrow> jsstring \<Rightarrow> jsint option \<Rightarrow> jsint option \<Rightarrow> jsstring" where
  "encodeText this string start end =
     encodeToStringSymbol this (stringToUint8Array string) start end"

text \<open>
  \<open>uint8ArrayToString\<close> is \<open>TextDecoder.prototype.decode\<close> of the platform. \<open>decodeText\<close>
  applies it to the decoded bytes and is stated for any such function.
\<close>

definition decodeText ::
  "(byte list \<Rightarrow> jsstring) \<Rightarrow> Base64 \<Rightarrow> jsstring \<Rightarrow> jsint option \<Rightarrow> jsint option \<Rightarrow>
   error + jsstring" where
  "decodeText uint8ArrayToString this string start end =
     (case decodeFromStringSymbol this string start end of
        Inl e \<Rightarrow> Inl e
      | Inr bytes \<Rightarrow> Inr (uint8ArrayToString bytes))"

section \<open>Functions of the specification and of the proofs\<close>

text \<open>
  The definitions below are not part of the program. They state what the loops compute,
  on whole lists, and name the inputs of the examples.
\<close>

subsection \<open>String and byte literals\<close>

definition bytestr :: "string \<Rightarrow> byte list" where
  "bytestr s = map (\<lambda>c. of_nat (of_char c)) s"

definition PADDING_BYTE :: byte where
  "PADDING_BYTE = of_nat (unat PADDING_CHAR)"

definition customAlphabet :: jsstring where
  "customAlphabet = jsstr ''+/0123456789ABCDEFGHIJKLMNOPQRSTUVWXYZabcdefghijklmnopqrstuvwxyz''"

definition urlSafeAlphabet :: jsstring where
  "urlSafeAlphabet = jsstr ''ABCDEFGHIJKLMNOPQRSTUVWXYZabcdefghijklmnopqrstuvwxyz0123456789-_''"

subsection \<open>Tables\<close>

text \<open>One round of the loop of \<open>createAlphabetLookups\<close>.\<close>

definition lookups_step ::
  "jsstring \<Rightarrow> nat \<Rightarrow> (jschar \<rightharpoonup> nat) \<times> byte list \<times> (nat \<rightharpoonup> nat) \<Rightarrow>
   (jschar \<rightharpoonup> nat) \<times> byte list \<times> (nat \<rightharpoonup> nat)" where
  "lookups_step alphabet =
     (\<lambda>i (lookup, baseMap, baseMapLookup).
        let char = alphabet ! i;
            charCode = unat char
        in (lookup(char \<mapsto> i), baseMap[i := of_nat charCode], baseMapLookup(charCode \<mapsto> i)))"

text \<open>The table that maps each element of a list to its position, counted from \<open>i\<close>.\<close>

fun indexMap :: "'a list \<Rightarrow> nat \<Rightarrow> ('a \<rightharpoonup> nat)" where
  "indexMap [] i = Map.empty"
| "indexMap (x # xs) i = (indexMap xs (i + 1))(x \<mapsto> i)"

subsection \<open>Numerals in base 64\<close>

text \<open>The digits of a number, most significant first, and the value of a digit list.\<close>

fun digits64 :: "nat \<Rightarrow> nat list" where
  "digits64 n = (if n = 0 then [] else digits64 (n div BASE) @ [n mod BASE])"

declare digits64.simps [simp del]

definition digits_value :: "int \<Rightarrow> nat list \<Rightarrow> int" where
  "digits_value r ds = foldl (\<lambda>r d. r * int BASE + int d) r ds"

subsection \<open>The selected range\<close>

text \<open>
  \<open>slice(start, end)\<close> of ECMAScript, the same for arrays, typed arrays and strings: a
  relative index of \<open>-\<infinity>\<close> is 0, a negative one is \<open>max(len + index, 0)\<close>, any other is
  \<open>min(index, len)\<close>; an omitted end is \<open>len\<close>; the result has \<open>max(final - k, 0)\<close>
  elements from position \<open>k\<close> on.
\<close>

fun sliceIndex :: "nat \<Rightarrow> jsint \<Rightarrow> nat" where
  "sliceIndex len NegInfinity = 0"
| "sliceIndex len (Finite i) = (if i < 0 then nat (max (int len + i) 0) else nat (min i (int len)))"
| "sliceIndex len PosInfinity = len"

definition js_slice :: "'a list \<Rightarrow> jsint option \<Rightarrow> jsint option \<Rightarrow> 'a list" where
  "js_slice xs start end =
     (let len = length xs;
          k = (case start of None \<Rightarrow> 0 | Some s \<Rightarrow> sliceIndex len s);
          final = (case end of None \<Rightarrow> len | Some e \<Rightarrow> sliceIndex len e)
      in take (final - k) (drop k xs))"

text \<open>
  The messages of the decoders report the position in the whole input. \<open>error_at_offset k\<close>
  moves a reported position by \<open>k\<close>.
\<close>

fun error_at_offset :: "nat \<Rightarrow> error \<Rightarrow> error" where
  "error_at_offset k (SyntaxError (InvalidCharacter c i)) = SyntaxError (InvalidCharacter c (k + i))"
| "error_at_offset k (SyntaxError (InvalidByte b i)) = SyntaxError (InvalidByte b (k + i))"
| "error_at_offset k e = e"

definition result_at_offset :: "nat \<Rightarrow> error + 'a \<Rightarrow> error + 'a" where
  "result_at_offset k r = (case r of Inl e \<Rightarrow> Inl (error_at_offset k e) | Inr v \<Rightarrow> Inr v)"

subsection \<open>Groups of bytes and groups of symbols\<close>

text \<open>
  The indices into the alphabet that the encoders compute from a full group of three
  bytes and from a final group of two bytes or of one byte, with the expressions of the
  source; \<open>sextets\<close> cuts a byte sequence into such groups.
\<close>

definition sextets3 :: "byte \<Rightarrow> byte \<Rightarrow> byte \<Rightarrow> nat list" where
  "sextets3 a b c =
     (let number = js_shl (uint a) 16 + js_shl (uint b) 8 + uint c
      in [nat (js_and (js_shr number 18) 0x3f), nat (js_and (js_shr number 12) 0x3f),
          nat (js_and (js_shr number 6) 0x3f), nat (js_and number 0x3f)])"

definition sextets2 :: "byte \<Rightarrow> byte \<Rightarrow> nat list" where
  "sextets2 a b =
     (let number = js_shl (uint a) 8 + uint b
      in [nat (js_shr number 10), nat (js_and (js_shr number 4) 0x3f),
          nat (js_and (js_shl number 2) 0x3f)])"

definition sextets1 :: "byte \<Rightarrow> nat list" where
  "sextets1 a =
     (let number = uint a
      in [nat (js_shr number 2), nat (js_and (js_shl number 4) 0x3f)])"

fun sextets :: "byte list \<Rightarrow> nat list" where
  "sextets (a # b # c # xs) = sextets3 a b c @ sextets xs"
| "sextets [a, b] = sextets2 a b"
| "sextets [a] = sextets1 a"
| "sextets [] = []"

text \<open>
  The same indices in the words of the specification: a full group of three bytes is
  packed into a 24-bit big-endian value and split into four 6-bit fields; a final byte
  gives its 6 high bits and then its 2 low bits shifted left to fill 6 bits; two final
  bytes give 6 bits, 6 bits and then the 4 low bits of the second byte shifted left by 2.
\<close>

fun groupIndices :: "byte list \<Rightarrow> nat list" where
  "groupIndices (a # b # c # xs) =
     (let n = unat a * 65536 + unat b * 256 + unat c
      in [n div 262144 mod 64, n div 4096 mod 64, n div 64 mod 64, n mod 64])
     @ groupIndices xs"
| "groupIndices [a, b] = [unat a div 4, unat a mod 4 * 16 + unat b div 16, unat b mod 16 * 4]"
| "groupIndices [a] = [unat a div 4, unat a mod 4 * 16]"
| "groupIndices [] = []"

text \<open>
  The bytes that the decoders compute from a full group of four indices and from a final
  group of three, two or one.
\<close>

definition octets3 :: "nat \<Rightarrow> nat \<Rightarrow> nat \<Rightarrow> nat \<Rightarrow> byte list" where
  "octets3 i j k l =
     (let number = js_shl (int i) 18 + js_shl (int j) 12 + js_shl (int k) 6 + int l
      in [of_int (js_and (js_shr number 16) 0xff), of_int (js_and (js_shr number 8) 0xff),
          of_int (js_and number 0xff)])"

definition octets2 :: "nat \<Rightarrow> nat \<Rightarrow> nat \<Rightarrow> byte list" where
  "octets2 i j k =
     (let number = js_shl (int i) 10 + js_shl (int j) 4 + js_shr (int k) 2
      in [of_int (js_and (js_shr number 8) 0xff), of_int (js_and number 0xff)])"

definition octets1 :: "nat \<Rightarrow> nat \<Rightarrow> byte list" where
  "octets1 i j =
     (let number = js_shl (int i) 2 + js_shr (int j) 4
      in [of_int (js_and number 0xff)])"

fun octets :: "nat list \<Rightarrow> byte list" where
  "octets (i # j # k # l # ds) = octets3 i j k l @ octets ds"
| "octets [i, j, k] = octets2 i j k"
| "octets [i, j] = octets1 i j"
| "octets [i] = []"
| "octets [] = []"

text \<open>
  The stores \<open>result[resultIndex++] = v\<close> of a block of values, from position \<open>i\<close> on; a store
  past the end is ignored.
\<close>

fun write_at :: "nat \<Rightarrow> 'a list \<Rightarrow> 'a list \<Rightarrow> 'a list" where
  "write_at i [] result = result"
| "write_at i (v # vs) result = write_at (i + 1) vs (result[i := v])"

text \<open>
  The lookups of the decoders over a whole range, from left to right: the indices of all
  elements, or the error for the first element that is not in the table, with its position.
\<close>

fun lookup_all ::
  "('a \<Rightarrow> nat option) \<Rightarrow> ('a \<Rightarrow> nat \<Rightarrow> syntax_message) \<Rightarrow> nat \<Rightarrow> 'a list \<Rightarrow> error + nat list" where
  "lookup_all lookup invalid i [] = Inr []"
| "lookup_all lookup invalid i (x # xs) =
     (case lookup x of
        None \<Rightarrow> Inl (SyntaxError (invalid x i))
      | Some d \<Rightarrow>
          (case lookup_all lookup invalid (i + 1) xs of
             Inl e \<Rightarrow> Inl e
           | Inr ds \<Rightarrow> Inr (d # ds)))"

text \<open>
  The number of padding characters that \<open>[decodeFromStringSymbol]\<close> removes from a selected
  range: those among its last two characters, when its length is a multiple of 4.
\<close>

definition paddingOf :: "jsstring \<Rightarrow> nat" where
  "paddingOf xs =
     (let n = length xs in
      if n mod 4 \<noteq> 0 \<or> n = 0 then 0
      else if xs ! (n - 1) \<noteq> PADDING_CHAR then 0
      else if xs ! (n - 2) \<noteq> PADDING_CHAR then 1
      else 2)"

section \<open>Properties\<close>

subsection \<open>The alphabet table\<close>

lemma length_ALPHABET: "length ALPHABET = BASE"
  by (simp add: ALPHABET_def jsstr_def)

lemmas ALPHABET_chars = ALPHABET_def jsstr_def jschr_def

lemma distinct_ALPHABET: "distinct ALPHABET"
  unfolding ALPHABET_chars by simp

lemma ALPHABET_ascii: "c \<in> set ALPHABET \<Longrightarrow> unat c < 128"
  unfolding ALPHABET_chars by auto

lemma PADDING_CHAR_notin: "PADDING_CHAR \<notin> set ALPHABET"
  by (simp add: ALPHABET_chars PADDING_CHAR_def)

lemma NEGATIVE_CHAR_notin: "NEGATIVE_CHAR \<notin> set ALPHABET"
  by (simp add: ALPHABET_chars NEGATIVE_CHAR_def)

lemma lookups_fold:
  assumes "distinct a" "n \<le> length a" "n \<le> m"
  shows "\<exists>l bm bl. fold (lookups_step a) [0..<n] (Map.empty, replicate m 0, Map.empty) = (l, bm, bl)
     \<and> (\<forall>c i. l c = Some i \<longleftrightarrow> i < n \<and> a ! i = c)
     \<and> bm = map (\<lambda>c. of_nat (unat c)) (take n a) @ replicate (m - n) 0
     \<and> (\<forall>k i. bl k = Some i \<longleftrightarrow> i < n \<and> unat (a ! i) = k)"
  using assms(2,3)
proof (induction n)
  case 0
  then show ?case by simp
next
  case (Suc n)
  then obtain l bm bl where
    f: "fold (lookups_step a) [0..<n] (Map.empty, replicate m 0, Map.empty) = (l, bm, bl)"
    and l: "\<And>c i. l c = Some i \<longleftrightarrow> i < n \<and> a ! i = c"
    and bm: "bm = map (\<lambda>c. of_nat (unat c)) (take n a) @ replicate (m - n) 0"
    and bl: "\<And>k i. bl k = Some i \<longleftrightarrow> i < n \<and> unat (a ! i) = k"
    by auto
  have n: "n < length a" "n < m" using Suc.prems by auto
  have neq: "\<And>i. i < n \<Longrightarrow> a ! i \<noteq> a ! n"
    using assms(1) n by (simp add: nth_eq_iff_index_eq)
  have neq': "\<And>i. i < n \<Longrightarrow> unat (a ! i) \<noteq> unat (a ! n)"
    using neq by (metis word_unat_eq_iff)
  have l': "\<And>c i. (l(a ! n \<mapsto> n)) c = Some i \<longleftrightarrow> i < Suc n \<and> a ! i = c"
    using l neq by (auto simp: less_Suc_eq)
  have bl': "\<And>k i. (bl(unat (a ! n) \<mapsto> n)) k = Some i \<longleftrightarrow> i < Suc n \<and> unat (a ! i) = k"
    using bl neq' by (auto simp: less_Suc_eq)
  have rep: "replicate (m - n) (0::byte) = 0 # replicate (m - Suc n) 0"
    using n by (metis Suc_diff_Suc replicate_Suc)
  have bm': "bm[n := of_nat (unat (a ! n))] =
      map (\<lambda>c. of_nat (unat c)) (take (Suc n) a) @ replicate (m - Suc n) 0"
    using n by (simp add: bm rep take_Suc_conv_app_nth list_update_append)
  have "fold (lookups_step a) [0..<Suc n] (Map.empty, replicate m 0, Map.empty) =
        (l(a ! n \<mapsto> n), bm[n := of_nat (unat (a ! n))], bl(unat (a ! n) \<mapsto> n))"
    by (simp add: f, simp add: lookups_step_def Let_def)
  with l' bm' bl' show ?case by blast
qed

lemma Base64_init_props:
  assumes "distinct a" "length a = BASE"
  shows "alphabetSymbol (Base64_init a) = a"
    and "alphabetLookupSymbol (Base64_init a) c = Some i \<longleftrightarrow> i < BASE \<and> a ! i = c"
    and "baseMapSymbol (Base64_init a) = map (\<lambda>c. of_nat (unat c)) a"
    and "baseMapLookupSymbol (Base64_init a) k = Some i \<longleftrightarrow> i < BASE \<and> unat (a ! i) = k"
proof -
  from lookups_fold [OF assms(1), of BASE BASE] assms(2)
  obtain l bm bl where
    f: "createAlphabetLookups a = (l, bm, bl)"
    and l: "\<And>c i. l c = Some i \<longleftrightarrow> i < BASE \<and> a ! i = c"
    and bm: "bm = map (\<lambda>c. of_nat (unat c)) a"
    and bl: "\<And>k i. bl k = Some i \<longleftrightarrow> i < BASE \<and> unat (a ! i) = k"
    unfolding createAlphabetLookups_def lookups_step_def by auto
  show "alphabetSymbol (Base64_init a) = a" by (simp add: Base64_init_def f)
  show "alphabetLookupSymbol (Base64_init a) c = Some i \<longleftrightarrow> i < BASE \<and> a ! i = c"
    by (simp add: Base64_init_def f l)
  show "baseMapSymbol (Base64_init a) = map (\<lambda>c. of_nat (unat c)) a"
    by (simp add: Base64_init_def f bm)
  show "baseMapLookupSymbol (Base64_init a) k = Some i \<longleftrightarrow> i < BASE \<and> unat (a ! i) = k"
    by (simp add: Base64_init_def f bl)
qed

lemma base64_lookup_None: "alphabetLookupSymbol base64 c = None \<longleftrightarrow> c \<notin> set ALPHABET"
proof -
  have "(\<exists>i. alphabetLookupSymbol base64 c = Some i) \<longleftrightarrow> c \<in> set ALPHABET"
    unfolding base64_def Base64_init_props(2) [OF distinct_ALPHABET length_ALPHABET]
    using length_ALPHABET by (auto simp: in_set_conv_nth)
  then show ?thesis by auto
qed

lemma toAlphabet_loop_sound:
  assumes "length v = BASE" "i \<le> BASE" "dom u = set (take i v)"
    "distinct (take i v)" "set (take i v) \<subseteq> set ALPHABET"
    "toAlphabet_loop v i u = Inr a"
  shows "a = v \<and> distinct v \<and> set v \<subseteq> set ALPHABET"
  using assms
proof (induction v i u rule: toAlphabet_loop.induct)
  case (1 v i u)
  show ?case
  proof (cases "i < BASE")
    case True
    let ?c = "v ! i"
    from "1.prems"(6) True have ok: "alphabetLookupSymbol base64 ?c \<noteq> None" "u ?c = None"
      and rec: "toAlphabet_loop v (i + 1) (u(?c \<mapsto> i)) = Inr a"
      by (auto simp: toAlphabet_loop.simps [of v i u] Let_def split: if_splits)
    have take: "take (Suc i) v = take i v @ [?c]"
      using True "1.prems"(1) by (simp add: take_Suc_conv_app_nth)
    have notin: "?c \<notin> set (take i v)"
      using ok(2) "1.prems"(3) by (metis domIff)
    have inA: "?c \<in> set ALPHABET"
      using ok(1) by (simp add: base64_lookup_None)
    show ?thesis
    proof (rule "1.IH" [OF True refl _ _ "1.prems"(1) _ _ _ _ rec])
      show "alphabetLookupSymbol base64 ?c \<noteq> None" by (rule ok)
      show "\<not> u ?c \<noteq> None" using ok by simp
      show "i + 1 \<le> BASE" using True by simp
      show "dom (u(?c \<mapsto> i)) = set (take (i + 1) v)"
        using "1.prems"(3) by (simp add: take)
      show "distinct (take (i + 1) v)"
        using "1.prems"(4) notin by (simp add: take)
      show "set (take (i + 1) v) \<subseteq> set ALPHABET"
        using "1.prems"(5) inA by (simp add: take)
    qed
  next
    case False
    then have "toAlphabet_loop v i u = Inr v"
      by (simp add: toAlphabet_loop.simps [of v i u])
    with "1.prems" False show ?thesis
      by simp
  qed
qed

lemma toAlphabet_loop_distinct:
  assumes "length v = BASE" "distinct v" "i \<le> BASE" "dom u = set (take i v)"
  shows "(set (drop i v) \<subseteq> set ALPHABET \<and> toAlphabet_loop v i u = Inr v)
       \<or> (\<exists>j. i \<le> j \<and> j < BASE \<and> v ! j \<notin> set ALPHABET
              \<and> toAlphabet_loop v i u = Inl (SyntaxError (InvalidAlphabetCharacter (v ! j) j)))"
  using assms
proof (induction v i u rule: toAlphabet_loop.induct)
  case (1 v i u)
  show ?case
  proof (cases "i < BASE")
    case True
    let ?c = "v ! i"
    have take: "take (Suc i) v = take i v @ [?c]"
      using True "1.prems"(1) by (simp add: take_Suc_conv_app_nth)
    have drop: "drop i v = ?c # drop (i + 1) v"
      using True "1.prems"(1) by (simp add: Cons_nth_drop_Suc)
    have "distinct (take (Suc i) v)" using "1.prems"(2) by (rule distinct_take)
    then have fresh: "u ?c = None"
      using "1.prems"(4) unfolding take by (auto simp: domIff)
    show ?thesis
    proof (cases "?c \<in> set ALPHABET")
      case inA: True
      then have ok: "alphabetLookupSymbol base64 ?c \<noteq> None"
        by (simp add: base64_lookup_None)
      have step: "toAlphabet_loop v i u = toAlphabet_loop v (i + 1) (u(?c \<mapsto> i))"
        using True ok fresh by (simp add: toAlphabet_loop.simps [of v i u] Let_def del: not_None_eq)
      have "(set (drop (i + 1) v) \<subseteq> set ALPHABET \<and> toAlphabet_loop v (i + 1) (u(?c \<mapsto> i)) = Inr v)
       \<or> (\<exists>j. i + 1 \<le> j \<and> j < BASE \<and> v ! j \<notin> set ALPHABET
              \<and> toAlphabet_loop v (i + 1) (u(?c \<mapsto> i)) = Inl (SyntaxError (InvalidAlphabetCharacter (v ! j) j)))"
      proof (rule "1.IH" [OF True refl _ _ "1.prems"(1,2)])
        show "alphabetLookupSymbol base64 ?c \<noteq> None" by (rule ok)
        show "\<not> u ?c \<noteq> None" using fresh by simp
        show "i + 1 \<le> BASE" using True by simp
        show "dom (u(?c \<mapsto> i)) = set (take (i + 1) v)"
          using "1.prems"(4) by (simp add: take)
      qed
      then show ?thesis
      proof
        assume "set (drop (i + 1) v) \<subseteq> set ALPHABET \<and> toAlphabet_loop v (i + 1) (u(?c \<mapsto> i)) = Inr v"
        then show ?thesis
          unfolding step using inA by (simp add: drop)
      next
        assume "\<exists>j. i + 1 \<le> j \<and> j < BASE \<and> v ! j \<notin> set ALPHABET
              \<and> toAlphabet_loop v (i + 1) (u(?c \<mapsto> i)) = Inl (SyntaxError (InvalidAlphabetCharacter (v ! j) j))"
        then obtain j where "i \<le> j" "j < BASE" "v ! j \<notin> set ALPHABET"
          "toAlphabet_loop v i u = Inl (SyntaxError (InvalidAlphabetCharacter (v ! j) j))"
          unfolding step by auto
        then show ?thesis by blast
      qed
    next
      case False
      then have "alphabetLookupSymbol base64 ?c = None"
        by (simp add: base64_lookup_None)
      then have "toAlphabet_loop v i u = Inl (SyntaxError (InvalidAlphabetCharacter ?c i))"
        using True by (simp add: toAlphabet_loop.simps [of v i u] Let_def)
      with True False show ?thesis by blast
    qed
  next
    case False
    then have "toAlphabet_loop v i u = Inr v"
      by (simp add: toAlphabet_loop.simps [of v i u])
    with "1.prems" False show ?thesis
      by simp
  qed
qed

lemma isAlphabet_loop_eq: "isAlphabet_loop v i u \<longleftrightarrow> toAlphabet_loop v i u = Inr v"
proof (induction v i u rule: toAlphabet_loop.induct)
  case (1 v i u)
  show ?case
  proof (cases "i < BASE \<and> alphabetLookupSymbol base64 (v ! i) \<noteq> None \<and> u (v ! i) = None")
    case True
    then have "isAlphabet_loop v i u = isAlphabet_loop v (i + 1) (u(v ! i \<mapsto> i))"
      by (simp add: isAlphabet_loop.simps [of v i u] Let_def del: not_None_eq)
    moreover have "toAlphabet_loop v i u = toAlphabet_loop v (i + 1) (u(v ! i \<mapsto> i))"
      using True by (simp add: toAlphabet_loop.simps [of v i u] Let_def del: not_None_eq)
    moreover have "isAlphabet_loop v (i + 1) (u(v ! i \<mapsto> i)) \<longleftrightarrow>
        toAlphabet_loop v (i + 1) (u(v ! i \<mapsto> i)) = Inr v"
      using True by (intro "1.IH") auto
    ultimately show ?thesis by simp
  next
    case False
    then show ?thesis
      by (auto simp: isAlphabet_loop.simps [of v i u] toAlphabet_loop.simps [of v i u] Let_def)
  qed
qed

lemma card_ALPHABET: "card (set ALPHABET) = BASE"
  using distinct_card [OF distinct_ALPHABET] length_ALPHABET by simp

lemma toAlphabet_Some_Inr:
  "toAlphabet (Some v) = Inr a \<longleftrightarrow>
     a = v \<and> length v = BASE \<and> distinct v \<and> set v = set ALPHABET"
proof
  assume h: "toAlphabet (Some v) = Inr a"
  then have len: "length v = BASE" and l: "toAlphabet_loop v 0 Map.empty = Inr a"
    by (auto split: if_splits)
  from toAlphabet_loop_sound [OF len _ _ _ _ l]
  have a: "a = v" "distinct v" "set v \<subseteq> set ALPHABET" by auto
  have "card (set v) = card (set ALPHABET)"
    using distinct_card [OF a(2)] len card_ALPHABET by simp
  then have "set v = set ALPHABET"
    using a(3) by (simp add: card_subset_eq)
  with a len show "a = v \<and> length v = BASE \<and> distinct v \<and> set v = set ALPHABET" by simp
next
  assume h: "a = v \<and> length v = BASE \<and> distinct v \<and> set v = set ALPHABET"
  then have "\<And>j. j < BASE \<Longrightarrow> v ! j \<in> set ALPHABET"
    using nth_mem [of _ v] by auto
  then have "toAlphabet_loop v 0 Map.empty = Inr v"
    using toAlphabet_loop_distinct [of v 0 Map.empty] h
    by auto
  with h show "toAlphabet (Some v) = Inr a" by simp
qed

lemma new_Base64_Inr:
  assumes "new_Base64 alphabet = Inr this"
  obtains v where "this = Base64_init v" "length v = BASE" "distinct v" "set v = set ALPHABET"
proof (cases alphabet)
  case None
  with assms have "this = Base64_init ALPHABET"
    by (simp add: new_Base64_def)
  then show ?thesis
    using that length_ALPHABET distinct_ALPHABET by blast
next
  case (Some v)
  with assms obtain a where a: "toAlphabet (Some v) = Inr a" "this = Base64_init a"
    by (auto simp: new_Base64_def simp del: toAlphabet.simps split: sum.splits)
  then show ?thesis
    using that by (auto simp: toAlphabet_Some_Inr simp del: toAlphabet.simps)
qed

subsection \<open>The numeral codec\<close>

lemma digits64_0: "digits64 0 = []"
  by (subst digits64.simps) simp

lemma digits64_step: "n \<noteq> 0 \<Longrightarrow> digits64 n = digits64 (n div BASE) @ [n mod BASE]"
  by (subst digits64.simps) simp

lemma encodeInt_loop_0: "encodeInt_loop a 0 r = r"
  by (subst encodeInt_loop.simps) simp

lemma encodeInt_loop_step:
  "n \<noteq> 0 \<Longrightarrow> encodeInt_loop a n r = encodeInt_loop a (n div BASE) (a ! (n mod BASE) # r)"
  by (subst encodeInt_loop.simps) simp

lemma decodeInt_loop_end: "\<not> i < length s \<Longrightarrow> decodeInt_loop lk s i r = Inr r"
  by (subst decodeInt_loop.simps) simp

lemma decodeInt_loop_Some:
  "i < length s \<Longrightarrow> lk (s ! i) = Some d \<Longrightarrow>
   decodeInt_loop lk s i r = decodeInt_loop lk s (Suc i) (r * int BASE + int d)"
  by (subst decodeInt_loop.simps) simp

lemma decodeInt_loop_None:
  "i < length s \<Longrightarrow> lk (s ! i) = None \<Longrightarrow>
   decodeInt_loop lk s i r = Inl (SyntaxError (InvalidCharacter (s ! i) i))"
  by (subst decodeInt_loop.simps) simp

lemma encodeInt_loop_digits:
  "encodeInt_loop a n r = map ((!) a) (digits64 n) @ r"
proof (induction a n r rule: encodeInt_loop.induct)
  case (1 a n r)
  show ?case
  proof (cases "n = 0")
    case True
    then show ?thesis
      by (simp add: encodeInt_loop_0 digits64_0)
  next
    case False
    then have "encodeInt_loop a n r = encodeInt_loop a (n div BASE) (a ! (n mod BASE) # r)"
      by (rule encodeInt_loop_step)
    also have "\<dots> = map ((!) a) (digits64 (n div BASE)) @ a ! (n mod BASE) # r"
      using False by (rule "1.IH")
    also have "\<dots> = map ((!) a) (digits64 n) @ r"
      using False by (simp add: digits64_step)
    finally show ?thesis .
  qed
qed

lemma digits64_lt: "d \<in> set (digits64 n) \<Longrightarrow> d < BASE"
proof (induction n rule: digits64.induct)
  case (1 n)
  then show ?case
    by (cases "n = 0") (auto simp: digits64_0 digits64_step)
qed

lemma digits64_Nil: "digits64 n = [] \<longleftrightarrow> n = 0"
  by (cases "n = 0") (simp_all add: digits64_0 digits64_step)

lemma digits_value_digits64: "digits_value 0 (digits64 n) = int n"
proof (induction n rule: digits64.induct)
  case (1 n)
  show ?case
  proof (cases "n = 0")
    case True
    then show ?thesis by (simp add: digits64_0 digits_value_def)
  next
    case False
    then have "digits_value 0 (digits64 n) = digits_value 0 (digits64 (n div BASE)) * int BASE + int (n mod BASE)"
      by (simp add: digits64_step digits_value_def)
    also have "\<dots> = int (n div BASE) * int BASE + int (n mod BASE)"
      using False by (simp add: "1.IH")
    also have "\<dots> = int n"
      by (simp add: zdiv_int zmod_int)
    finally show ?thesis .
  qed
qed

lemma decodeInt_loop_digits:
  assumes lk: "\<And>d. d < BASE \<Longrightarrow> lk (a ! d) = Some d"
    and ds: "\<And>d. d \<in> set ds \<Longrightarrow> d < BASE"
  shows "decodeInt_loop lk (pre @ map ((!) a) ds) (length pre) r = Inr (digits_value r ds)"
  using ds
proof (induction ds arbitrary: pre r)
  case Nil
  then show ?case
    by (simp add: decodeInt_loop_end digits_value_def)
next
  case (Cons d ds)
  let ?s = "pre @ map ((!) a) (d # ds)"
  have d: "d < BASE" using Cons.prems by simp
  have "decodeInt_loop lk ?s (length pre) r =
        decodeInt_loop lk ?s (Suc (length pre)) (r * int BASE + int d)"
    by (rule decodeInt_loop_Some) (simp_all add: lk [OF d])
  also have "\<dots> = decodeInt_loop lk ((pre @ [a ! d]) @ map ((!) a) ds) (length (pre @ [a ! d])) (r * int BASE + int d)"
    by simp
  also have "\<dots> = Inr (digits_value (r * int BASE + int d) ds)"
    using Cons.prems by (intro Cons.IH) simp
  finally show ?case by (simp add: digits_value_def)
qed

text \<open>Facts about a constructed instance.\<close>

lemma instance_facts:
  assumes "new_Base64 alphabet = Inr this"
  shows "length (alphabetSymbol this) = BASE"
    and "distinct (alphabetSymbol this)"
    and "set (alphabetSymbol this) = set ALPHABET"
    and "alphabetLookupSymbol this c = Some i \<longleftrightarrow> i < BASE \<and> alphabetSymbol this ! i = c"
    and "baseMapSymbol this = map (\<lambda>c. of_nat (unat c)) (alphabetSymbol this)"
    and "baseMapLookupSymbol this k = Some i \<longleftrightarrow> i < BASE \<and> unat (alphabetSymbol this ! i) = k"
proof -
  from assms obtain v where v: "this = Base64_init v" "length v = BASE" "distinct v" "set v = set ALPHABET"
    by (rule new_Base64_Inr)
  note p = Base64_init_props [OF v(3) v(2)]
  show "length (alphabetSymbol this) = BASE" by (simp add: v p(1))
  show "distinct (alphabetSymbol this)" by (simp add: v p(1))
  show "set (alphabetSymbol this) = set ALPHABET" by (simp add: v p(1))
  show "alphabetLookupSymbol this c = Some i \<longleftrightarrow> i < BASE \<and> alphabetSymbol this ! i = c"
    unfolding v(1) p(1) by (rule p(2))
  show "baseMapSymbol this = map (\<lambda>c. of_nat (unat c)) (alphabetSymbol this)"
    unfolding v(1) p(1) by (rule p(3))
  show "baseMapLookupSymbol this k = Some i \<longleftrightarrow> i < BASE \<and> unat (alphabetSymbol this ! i) = k"
    unfolding v(1) p(1) by (rule p(4))
qed

lemma instance_lookup_None:
  assumes "new_Base64 alphabet = Inr this"
  shows "alphabetLookupSymbol this c = None \<longleftrightarrow> c \<notin> set ALPHABET"
proof -
  have "(\<exists>i. alphabetLookupSymbol this c = Some i) \<longleftrightarrow> c \<in> set (alphabetSymbol this)"
    unfolding instance_facts(4) [OF assms]
    using instance_facts(1) [OF assms] by (auto simp: in_set_conv_nth)
  then show ?thesis
    unfolding instance_facts(3) [OF assms] by auto
qed

lemma instance_digit_notin:
  assumes "new_Base64 alphabet = Inr this" "d < BASE" "c \<notin> set ALPHABET"
  shows "alphabetSymbol this ! d \<noteq> c"
  using instance_facts(1,3) [OF assms(1)] assms(2,3) nth_mem [of d "alphabetSymbol this"]
  by auto

text \<open>Signed magnitude encoding and decoding, shared by the two numeral codecs.\<close>

lemma decode_magnitude:
  assumes inst: "new_Base64 alphabet = Inr this" and n: "n \<noteq> 0"
  shows "decodeInt_loop (alphabetLookupSymbol this)
           (pre @ encodeInt_loop (alphabetSymbol this) n []) (length pre) 0 = Inr (int n)"
proof -
  have "decodeInt_loop (alphabetLookupSymbol this)
           (pre @ map ((!) (alphabetSymbol this)) (digits64 n)) (length pre) 0
        = Inr (digits_value 0 (digits64 n))"
    by (rule decodeInt_loop_digits) (simp_all add: instance_facts(4) [OF inst] digits64_lt)
  then show ?thesis
    by (simp add: encodeInt_loop_digits digits_value_digits64)
qed

lemma encoded_magnitude_hd:
  assumes inst: "new_Base64 alphabet = Inr this" and n: "n \<noteq> 0"
  shows "encodeInt_loop (alphabetSymbol this) n [] \<noteq> []"
    and "encodeInt_loop (alphabetSymbol this) n [] ! 0 \<noteq> NEGATIVE_CHAR"
proof -
  let ?ds = "digits64 n"
  have ne: "?ds \<noteq> []" using n by (simp add: digits64_Nil)
  then show "encodeInt_loop (alphabetSymbol this) n [] \<noteq> []"
    by (simp add: encodeInt_loop_digits)
  have "?ds ! 0 < BASE" using ne by (intro digits64_lt [of _ n]) simp
  then have "alphabetSymbol this ! (?ds ! 0) \<noteq> NEGATIVE_CHAR"
    using instance_digit_notin [OF inst _ NEGATIVE_CHAR_notin] by blast
  then show "encodeInt_loop (alphabetSymbol this) n [] ! 0 \<noteq> NEGATIVE_CHAR"
    using ne by (simp add: encodeInt_loop_digits nth_append)
qed

lemma new_Base64_None: "new_Base64 None = Inr base64"
  by (simp add: new_Base64_def base64_def)

text \<open>
  C4. For every instance that the constructor returns and every safe integer \<open>N\<close>,
  \<open>encodeInt\<close> returns a string and \<open>decodeInt\<close> maps that string back to \<open>N\<close>. The
  accumulator of \<open>decodeInt\<close> grows with every digit and ends at \<open>\<bar>N\<bar>\<close>, so every
  intermediate value is a safe integer and the doubles of the source are exact.
\<close>

theorem decodeInt_encodeInt:
  assumes "new_Base64 alphabet = Inr this"
    and "NumberMIN_SAFE_INTEGER \<le> N" and "N \<le> NumberMAX_SAFE_INTEGER"
  shows "\<exists>s. encodeInt this (Finite N) = Inr s \<and> decodeInt this s = Inr N"
proof -
  note inst = assms(1)
  let ?a = "alphabetSymbol this"
  consider "N = 0" | "0 < N" | "N < 0" by linarith
  then show ?thesis
  proof cases
    case 1
    have "alphabetLookupSymbol this (?a ! 0) = Some 0"
      by (simp add: instance_facts(4) [OF inst])
    moreover have "?a ! 0 \<noteq> NEGATIVE_CHAR"
      using instance_digit_notin [OF inst _ NEGATIVE_CHAR_notin, of 0] by simp
    ultimately have "decodeInt this [?a ! 0] = Inr 0"
      by (simp add: decodeInt_def decodeInt_loop_Some [where d = 0] decodeInt_loop_end)
    then show ?thesis
      using 1 assms(2,3) by simp
  next
    case 2
    let ?s = "encodeInt_loop ?a (nat N) []"
    have n: "nat N \<noteq> 0" using 2 by simp
    have enc: "encodeInt this (Finite N) = Inr ?s"
      using 2 assms(2,3) by (simp add: Let_def)
    have "decodeInt_loop (alphabetLookupSymbol this) ([] @ ?s) (length ([] :: jsstring)) 0 = Inr (int (nat N))"
      by (rule decode_magnitude [OF inst n])
    then have "decodeInt this ?s = Inr N"
      using encoded_magnitude_hd [OF inst n] 2 by (simp add: decodeInt_def)
    with enc show ?thesis by blast
  next
    case 3
    let ?m = "encodeInt_loop ?a (nat (- N)) []"
    let ?s = "NEGATIVE_CHAR # ?m"
    have n: "nat (- N) \<noteq> 0" using 3 by simp
    have enc: "encodeInt this (Finite N) = Inr ?s"
      using 3 assms(2,3) by (simp add: Let_def)
    have "decodeInt_loop (alphabetLookupSymbol this) ([NEGATIVE_CHAR] @ ?m) (length [NEGATIVE_CHAR]) 0 = Inr (int (nat (- N)))"
      by (rule decode_magnitude [OF inst n])
    then have "decodeInt this ?s = Inr N"
      using encoded_magnitude_hd(1) [OF inst n] 3 by (simp add: decodeInt_def)
    with enc show ?thesis by blast
  qed
qed

theorem decodeInt_encodeInt_witness:
  "new_Base64 None = Inr base64
   \<and> NumberMIN_SAFE_INTEGER \<le> - 9007199254740991 \<and> - 9007199254740991 \<le> NumberMAX_SAFE_INTEGER
   \<and> (\<exists>s. encodeInt base64 (Finite (- 9007199254740991)) = Inr s
          \<and> decodeInt base64 s = Inr (- 9007199254740991))"
  using decodeInt_encodeInt [OF new_Base64_None, of "- 9007199254740991"] new_Base64_None
  by (simp add: NumberMIN_SAFE_INTEGER_def NumberMAX_SAFE_INTEGER_def)

text \<open>
  C5. For every instance that the constructor returns and every integer \<open>N\<close>, of any
  magnitude, \<open>encodeBigInt\<close> returns a string and \<open>decodeBigInt\<close> maps it back to \<open>N\<close>.
\<close>

theorem decodeBigInt_encodeBigInt:
  assumes "new_Base64 alphabet = Inr this"
  shows "\<exists>s. encodeBigInt this N = Inr s \<and> decodeBigInt this s = Inr N"
proof -
  note inst = assms(1)
  let ?a = "alphabetSymbol this"
  consider "N = 0" | "0 < N" | "N < 0" by linarith
  then show ?thesis
  proof cases
    case 1
    have "alphabetLookupSymbol this (?a ! 0) = Some 0"
      by (simp add: instance_facts(4) [OF inst])
    moreover have "?a ! 0 \<noteq> NEGATIVE_CHAR"
      using instance_digit_notin [OF inst _ NEGATIVE_CHAR_notin, of 0] by simp
    ultimately have "decodeBigInt this [?a ! 0] = Inr 0"
      by (simp add: decodeBigInt_def decodeInt_loop_Some [where d = 0] decodeInt_loop_end)
    then show ?thesis
      using 1 by (simp add: encodeBigInt_def)
  next
    case 2
    let ?s = "encodeInt_loop ?a (nat N) []"
    have n: "nat N \<noteq> 0" using 2 by simp
    have enc: "encodeBigInt this N = Inr ?s"
      using 2 by (simp add: encodeBigInt_def Let_def)
    have "decodeInt_loop (alphabetLookupSymbol this) ([] @ ?s) (length ([] :: jsstring)) 0 = Inr (int (nat N))"
      by (rule decode_magnitude [OF inst n])
    then have "decodeBigInt this ?s = Inr N"
      using encoded_magnitude_hd [OF inst n] 2 by (simp add: decodeBigInt_def)
    with enc show ?thesis by blast
  next
    case 3
    let ?m = "encodeInt_loop ?a (nat (- N)) []"
    let ?s = "NEGATIVE_CHAR # ?m"
    have n: "nat (- N) \<noteq> 0" using 3 by simp
    have enc: "encodeBigInt this N = Inr ?s"
      using 3 by (simp add: encodeBigInt_def Let_def)
    have "decodeInt_loop (alphabetLookupSymbol this) ([NEGATIVE_CHAR] @ ?m) (length [NEGATIVE_CHAR]) 0 = Inr (int (nat (- N)))"
      by (rule decode_magnitude [OF inst n])
    then have "decodeBigInt this ?s = Inr N"
      using encoded_magnitude_hd(1) [OF inst n] 3 by (simp add: decodeBigInt_def)
    with enc show ?thesis by blast
  qed
qed

theorem decodeBigInt_encodeBigInt_witness:
  "new_Base64 None = Inr base64
   \<and> (\<exists>s. encodeBigInt base64 (2 ^ 1024) = Inr s \<and> decodeBigInt base64 s = Inr (2 ^ 1024))"
  using decodeBigInt_encodeBigInt [OF new_Base64_None, of "2 ^ 1024"] new_Base64_None
  by blast

subsection \<open>Evaluating the default instance\<close>

lemma indexMap_Some:
  "distinct a \<Longrightarrow>
   indexMap a k c = Some i \<longleftrightarrow> k \<le> i \<and> i < k + length a \<and> a ! (i - k) = c"
proof (induction a arbitrary: k)
  case Nil
  then show ?case by simp
next
  case (Cons x xs)
  then have d: "distinct xs" and x: "x \<notin> set xs" by simp_all
  show ?case
  proof (cases "c = x")
    case True
    show ?thesis
    proof
      assume "indexMap (x # xs) k c = Some i"
      then have "i = k" using True by simp
      then show "k \<le> i \<and> i < k + length (x # xs) \<and> (x # xs) ! (i - k) = c"
        using True by simp
    next
      assume r: "k \<le> i \<and> i < k + length (x # xs) \<and> (x # xs) ! (i - k) = c"
      have "i = k"
      proof (rule ccontr)
        assume "i \<noteq> k"
        then obtain j where j: "i - k = Suc j" "j < length xs"
          using r by (cases "i - k") auto
        then have "(x # xs) ! (i - k) \<in> set xs" by simp
        with r True x show False by simp
      qed
      then show "indexMap (x # xs) k c = Some i"
        using True by simp
    qed
  next
    case False
    have "indexMap (x # xs) k c = indexMap xs (Suc k) c"
      using False by simp
    also have "\<dots> = Some i \<longleftrightarrow> Suc k \<le> i \<and> i < Suc k + length xs \<and> xs ! (i - Suc k) = c"
      by (rule Cons.IH [OF d])
    also have "\<dots> \<longleftrightarrow> k \<le> i \<and> i < k + length (x # xs) \<and> (x # xs) ! (i - k) = c"
    proof (cases "i = k")
      case True
      then show ?thesis using False by simp
    next
      case ne: False
      have "(x # xs) ! (i - k) = xs ! (i - Suc k)" if "k \<le> i"
        using that ne by (metis Suc_diff_Suc le_neq_implies_less nth_Cons_Suc)
      then show ?thesis using ne by auto
    qed
    finally show ?thesis .
  qed
qed

lemma map_eq_indexMap:
  assumes "distinct a" and "\<And>c i. m c = Some i \<longleftrightarrow> i < length a \<and> a ! i = c"
  shows "m = indexMap a 0"
proof
  fix c
  show "m c = indexMap a 0 c"
  proof (cases "indexMap a 0 c")
    case None
    then have "\<And>i. m c \<noteq> Some i"
      using indexMap_Some [OF assms(1), of 0 c] assms(2) by auto
    with None show ?thesis by (cases "m c") auto
  next
    case (Some i)
    then show ?thesis
      using indexMap_Some [OF assms(1), of 0 c i] assms(2) [of c i] by simp
  qed
qed

lemma base64_alphabet: "alphabetSymbol base64 = ALPHABET"
  unfolding base64_def by (rule Base64_init_props(1) [OF distinct_ALPHABET length_ALPHABET])

lemma base64_lookup: "alphabetLookupSymbol base64 = indexMap ALPHABET 0"
  unfolding base64_def
  using Base64_init_props(2) [OF distinct_ALPHABET length_ALPHABET] length_ALPHABET
  by (intro map_eq_indexMap [OF distinct_ALPHABET]) simp

lemma base64_baseMap: "baseMapSymbol base64 = map (\<lambda>c. of_nat (unat c)) ALPHABET"
  unfolding base64_def by (rule Base64_init_props(3) [OF distinct_ALPHABET length_ALPHABET])

lemma base64_baseMapLookup: "baseMapLookupSymbol base64 = indexMap (map unat ALPHABET) 0"
proof (rule map_eq_indexMap)
  show "distinct (map unat ALPHABET)"
    unfolding ALPHABET_chars by simp
  fix k i
  show "baseMapLookupSymbol base64 k = Some i \<longleftrightarrow>
        i < length (map unat ALPHABET) \<and> map unat ALPHABET ! i = k"
    unfolding base64_def Base64_init_props(4) [OF distinct_ALPHABET length_ALPHABET]
    using length_ALPHABET by auto
qed

lemmas eval_simps = base64_alphabet base64_lookup ALPHABET_chars Let_def

lemma isAlphabet_customAlphabet: "isAlphabet customAlphabet"
  by (simp add: isAlphabet_def customAlphabet_def isAlphabet_loop.simps eval_simps)

lemma toAlphabet_customAlphabet: "toAlphabet (Some customAlphabet) = Inr customAlphabet"
  by (simp add: customAlphabet_def toAlphabet_loop.simps eval_simps)

lemma new_Base64_customAlphabet: "new_Base64 (Some customAlphabet) = Inr (Base64_init customAlphabet)"
  by (simp add: new_Base64_def toAlphabet_customAlphabet del: toAlphabet.simps)

lemma length_urlSafeAlphabet: "length urlSafeAlphabet = BASE"
  by (simp add: urlSafeAlphabet_def jsstr_def)

lemma distinct_urlSafeAlphabet: "distinct urlSafeAlphabet"
  by (simp add: urlSafeAlphabet_def jsstr_def jschr_def)

lemma urlSafeAlphabet_outside: "\<not> set urlSafeAlphabet \<subseteq> set ALPHABET"
proof -
  have "jschr CHR ''-'' \<in> set urlSafeAlphabet"
    by (simp add: urlSafeAlphabet_def jsstr_def)
  moreover have "jschr CHR ''-'' \<notin> set ALPHABET"
    using NEGATIVE_CHAR_notin by (simp add: NEGATIVE_CHAR_def)
  ultimately show ?thesis by blast
qed

subsection \<open>Accepted alphabets\<close>

text \<open>
  C10. \<open>isAlphabet\<close> and the constructor accept a string only if it has 64 distinct
  characters whose set is the character set of \<open>ALPHABET\<close>. A string of 64 distinct
  characters with a character outside that set makes the constructor raise the
  invalid-character \<open>SyntaxError\<close>, at the first such character, and \<open>isAlphabet\<close> return
  false.
\<close>

theorem alphabet_only_permutations:
  "(isAlphabet v \<longrightarrow> length v = BASE \<and> distinct v \<and> set v = set ALPHABET)
   \<and> ((\<exists>this. new_Base64 (Some v) = Inr this) \<longrightarrow>
        length v = BASE \<and> distinct v \<and> set v = set ALPHABET)
   \<and> (length v = BASE \<and> distinct v \<and> \<not> set v \<subseteq> set ALPHABET \<longrightarrow>
        \<not> isAlphabet v
        \<and> (\<exists>i<BASE. v ! i \<notin> set ALPHABET
              \<and> new_Base64 (Some v) = Inl (SyntaxError (InvalidAlphabetCharacter (v ! i) i))))"
proof -
  have 1: "length v = BASE \<and> distinct v \<and> set v = set ALPHABET" if "isAlphabet v"
  proof -
    from that have "toAlphabet (Some v) = Inr v"
      by (simp add: isAlphabet_def isAlphabet_loop_eq split: if_splits)
    then show ?thesis
      unfolding toAlphabet_Some_Inr by simp
  qed
  have 2: "length v = BASE \<and> distinct v \<and> set v = set ALPHABET"
    if "\<exists>this. new_Base64 (Some v) = Inr this"
  proof -
    from that obtain a where "toAlphabet (Some v) = Inr a"
      unfolding new_Base64_def by (auto split: sum.splits)
    then show ?thesis
      unfolding toAlphabet_Some_Inr by simp
  qed
  have 3: "\<not> isAlphabet v
        \<and> (\<exists>i<BASE. v ! i \<notin> set ALPHABET
              \<and> new_Base64 (Some v) = Inl (SyntaxError (InvalidAlphabetCharacter (v ! i) i)))"
    if h: "length v = BASE \<and> distinct v \<and> \<not> set v \<subseteq> set ALPHABET"
  proof
    show "\<not> isAlphabet v"
      using 1 h by auto
    from toAlphabet_loop_distinct [of v 0 Map.empty] h
    obtain j where j: "j < BASE" "v ! j \<notin> set ALPHABET"
      "toAlphabet_loop v 0 Map.empty = Inl (SyntaxError (InvalidAlphabetCharacter (v ! j) j))"
      by auto
    then have "new_Base64 (Some v) = Inl (SyntaxError (InvalidAlphabetCharacter (v ! j) j))"
      using h by (simp add: new_Base64_def)
    with j show "\<exists>i<BASE. v ! i \<notin> set ALPHABET
              \<and> new_Base64 (Some v) = Inl (SyntaxError (InvalidAlphabetCharacter (v ! i) i))"
      by blast
  qed
  from 1 2 3 show ?thesis by blast
qed

theorem alphabet_only_permutations_witness:
  "isAlphabet customAlphabet
   \<and> (\<exists>this. new_Base64 (Some customAlphabet) = Inr this)
   \<and> set customAlphabet = set ALPHABET
   \<and> length urlSafeAlphabet = BASE \<and> distinct urlSafeAlphabet
   \<and> \<not> set urlSafeAlphabet \<subseteq> set ALPHABET
   \<and> \<not> isAlphabet urlSafeAlphabet
   \<and> (\<exists>i<BASE. new_Base64 (Some urlSafeAlphabet) =
          Inl (SyntaxError (InvalidAlphabetCharacter (urlSafeAlphabet ! i) i)))"
  using alphabet_only_permutations [of customAlphabet]
    alphabet_only_permutations [of urlSafeAlphabet]
    isAlphabet_customAlphabet new_Base64_customAlphabet
    length_urlSafeAlphabet distinct_urlSafeAlphabet urlSafeAlphabet_outside
  by blast

subsection \<open>Errors of the numeral codec\<close>

text \<open>
  C6. \<open>encodeInt\<close> raises \<open>RangeError\<close> exactly when the coerced value is not an integer
  between \<open>NumberMIN_SAFE_INTEGER\<close> and \<open>NumberMAX_SAFE_INTEGER\<close>, the infinities included;
  \<open>encodeBigInt\<close> returns a string for every integer.
\<close>

theorem encodeInt_RangeError_iff:
  "((\<exists>m. encodeInt this v = Inl (RangeError m)) \<longleftrightarrow>
      \<not> (\<exists>n. v = Finite n \<and> NumberMIN_SAFE_INTEGER \<le> n \<and> n \<le> NumberMAX_SAFE_INTEGER))
   \<and> (\<exists>s. encodeBigInt this bigInt = Inr s)"
proof
  show "(\<exists>m. encodeInt this v = Inl (RangeError m)) \<longleftrightarrow>
      \<not> (\<exists>n. v = Finite n \<and> NumberMIN_SAFE_INTEGER \<le> n \<and> n \<le> NumberMAX_SAFE_INTEGER)"
    by (cases v) (auto simp: Let_def)
  show "\<exists>s. encodeBigInt this bigInt = Inr s"
    by (simp add: encodeBigInt_def Let_def)
qed

lemma decodeInt_sign_only:
  assumes inst: "new_Base64 alphabet = Inr this"
  shows "decodeInt this [NEGATIVE_CHAR] = Inl (SyntaxError (InvalidCharacter NEGATIVE_CHAR 0))"
proof -
  have "alphabetLookupSymbol this NEGATIVE_CHAR = None"
    using NEGATIVE_CHAR_notin by (simp add: instance_lookup_None [OF inst])
  then show ?thesis
    by (simp add: decodeInt_def decodeInt_loop_None)
qed

text \<open>
  C7 (amended). \<open>decodeInt\<close> of the string that is only the sign marker raises the
  invalid-character \<open>SyntaxError\<close> for the sign marker at index 0: the sign is skipped only
  when another character follows it. The empty string decodes to 0.
\<close>

theorem decodeInt_bare_sign:
  assumes "new_Base64 alphabet = Inr this"
  shows "decodeInt this (jsstr ''-'') = Inl (SyntaxError (InvalidCharacter NEGATIVE_CHAR 0))
       \<and> decodeInt this (jsstr '''') = Inr 0"
proof
  show "decodeInt this (jsstr ''-'') = Inl (SyntaxError (InvalidCharacter NEGATIVE_CHAR 0))"
    using decodeInt_sign_only [OF assms] by (simp add: jsstr_def NEGATIVE_CHAR_def)
  show "decodeInt this (jsstr '''') = Inr 0"
    by (simp add: decodeInt_def jsstr_def decodeInt_loop_end)
qed

theorem decodeInt_bare_sign_witness:
  "new_Base64 None = Inr base64
   \<and> decodeInt base64 (jsstr ''-'') = Inl (SyntaxError (InvalidCharacter NEGATIVE_CHAR 0))
   \<and> decodeInt base64 (jsstr '''') = Inr 0"
  using decodeInt_bare_sign [OF new_Base64_None] new_Base64_None by simp

text \<open>C7 as stated, that the bare sign marker decodes to 0, fails on the default instance.\<close>

theorem decodeInt_bare_sign_counterexample:
  "decodeInt base64 (jsstr ''-'') \<noteq> Inr 0"
  using decodeInt_sign_only [OF new_Base64_None] by (simp add: jsstr_def NEGATIVE_CHAR_def)

subsection \<open>The 32-bit operators on small numbers\<close>

lemma sint32_eq: "- (2 ^ 31) \<le> x \<Longrightarrow> x < 2 ^ 31 \<Longrightarrow> sint (word_of_int x :: 32 word) = x"
  by (simp add: sint_sbintrunc' signed_take_bit_int_eq_self)

lemma js_shr_eq: "0 \<le> x \<Longrightarrow> x < 2 ^ 31 \<Longrightarrow> js_shr x n = x div 2 ^ n"
  unfolding js_shr_def sint_signed_drop_bit_eq
  by (simp add: sint32_eq drop_bit_eq_div)

lemma js_shl_eq: "0 \<le> x \<Longrightarrow> x * 2 ^ n < 2 ^ 31 \<Longrightarrow> js_shl x n = x * 2 ^ n"
proof -
  assume a: "0 \<le> x" "x * 2 ^ n < 2 ^ 31"
  have "js_shl x n = sint (word_of_int (x * 2 ^ n) :: 32 word)"
    unfolding js_shl_def by (simp add: push_bit_eq_mult)
  also have "\<dots> = x * 2 ^ n"
  proof (rule sint32_eq)
    have "0 \<le> x * 2 ^ n" using a(1) by simp
    moreover have "- (2 ^ 31) \<le> (0::int)" by simp
    ultimately show "- (2 ^ 31) \<le> x * 2 ^ n" by (rule order_trans [rotated])
    show "x * 2 ^ n < 2 ^ 31" by (rule a(2))
  qed
  finally show ?thesis .
qed

lemma js_and_mask: "js_and x (2 ^ k - 1) = x mod 2 ^ k" if "k < 31"
proof -
  have m: "(2 ^ k - 1 :: int) = mask k" by (simp add: mask_eq_exp_minus_1)
  have "x AND mask k = x mod 2 ^ k"
    by (simp add: take_bit_eq_mask [symmetric] take_bit_eq_mod)
  moreover have "x mod 2 ^ k < (2 ^ 31 :: int)"
  proof -
    have "x mod 2 ^ k < (2 ^ k :: int)" by simp
    also have "\<dots> \<le> 2 ^ 31" using that by (intro power_increasing) simp_all
    finally show ?thesis .
  qed
  moreover have "- (2 ^ 31) \<le> x mod (2 ^ k :: int)"
    by (smt (verit) pos_mod_sign zero_less_power)
  ultimately show ?thesis
    unfolding js_and_def m word_wi_log_defs by (simp add: sint32_eq)
qed

lemma js_and_3f: "js_and x 0x3f = x mod 64"
  using js_and_mask [of 6 x] by simp

lemma js_and_ff: "js_and x 0xff = x mod 256"
  using js_and_mask [of 8 x] by simp

lemma js_or_2: "0 \<le> x \<Longrightarrow> x < 2 ^ 29 \<Longrightarrow> js_or (js_shl x 2) 2 = 4 * x + 2"
proof -
  assume a: "0 \<le> x" "x < 2 ^ 29"
  have s: "js_shl x 2 = x * 4" using a js_shl_eq [of x 2] by simp
  have "(x * 4) OR 2 = 2 * ((x * 2) OR 1)"
    by (subst or_int_rec) (simp add: mult.commute)
  also have "(x * 2) OR 1 = x * 2 + 1"
    by (simp add: or_one_eq)
  finally have o: "(x * 4) OR 2 = 4 * x + 2" by simp
  have "js_or (js_shl x 2) 2 = sint (word_of_int ((x * 4) OR 2) :: 32 word)"
    by (simp only: s js_or_def word_wi_log_defs)
  also have "\<dots> = sint (word_of_int (4 * x + 2) :: 32 word)"
    by (simp only: o)
  also have "\<dots> = 4 * x + 2"
    using a by (intro sint32_eq) simp_all
  finally show ?thesis .
qed

text \<open>A byte as two, four or six high bits and the remaining low bits.\<close>

lemma byte_parts:
  fixes a :: byte and d :: int
  assumes "0 < d"
  obtains q r :: int where "uint a = q * d + r" "0 \<le> r" "r < d" "0 \<le> q" "q * d < 256"
    "q = uint a div d" "r = uint a mod d"
proof
  let ?A = "uint a"
  show "?A = ?A div d * d + ?A mod d" by simp
  show "0 \<le> ?A mod d" "?A mod d < d" using assms by simp_all
  show "0 \<le> ?A div d" using assms by (simp add: pos_imp_zdiv_nonneg_iff)
  have "?A div d * d \<le> ?A" using assms by (simp add: minus_mod_eq_div_mult [symmetric])
  also have "?A < 256" using uint_bounded [of a] by simp
  finally show "?A div d * d < 256" .
qed simp_all

lemma uint_byte: "0 \<le> uint (a :: byte)" "uint (a :: byte) < 256"
  using uint_bounded [of a] by simp_all

lemma sextets3_eq:
  "sextets3 a b c =
     [nat (uint a div 4), nat (uint a mod 4 * 16 + uint b div 16),
      nat (uint b mod 16 * 4 + uint c div 64), nat (uint c mod 64)]"
proof -
  let ?A = "uint a" and ?B = "uint b" and ?C = "uint c"
  let ?n = "?A * 65536 + ?B * 256 + ?C"
  note bd = uint_byte [of a] uint_byte [of b] uint_byte [of c]
  obtain a1 a0 where a: "?A = a1 * 4 + a0" "0 \<le> a0" "a0 < 4" "0 \<le> a1" "a1 * 4 < 256"
    and a_def: "a1 = ?A div 4" "a0 = ?A mod 4" by (rule byte_parts [of 4 a]) simp
  obtain b1 b0 where b: "?B = b1 * 16 + b0" "0 \<le> b0" "b0 < 16" "0 \<le> b1" "b1 * 16 < 256"
    and b_def: "b1 = ?B div 16" "b0 = ?B mod 16" by (rule byte_parts [of 16 b]) simp
  obtain c1 c0 where c: "?C = c1 * 64 + c0" "0 \<le> c0" "c0 < 64" "0 \<le> c1" "c1 * 64 < 256"
    and c_def: "c1 = ?C div 64" "c0 = ?C mod 64" by (rule byte_parts [of 64 c]) simp
  have n: "js_shl ?A 16 + js_shl ?B 8 + ?C = ?n"
    using bd by (simp add: js_shl_eq)
  have n_bd: "0 \<le> ?n" "?n < 2 ^ 31" using bd by simp_all
  have d1: "?n div 262144 = a1"
    by (rule int_div_pos_eq [where r = "a0 * 65536 + ?B * 256 + ?C"]) (use a bd in \<open>simp add: algebra_simps\<close>, (use a bd in linarith)+)
  have d1': "a1 mod 64 = a1"
    using a by simp
  have d2: "?n div 4096 = ?A * 16 + b1"
    by (rule int_div_pos_eq [where r = "b0 * 256 + ?C"]) (use b bd in \<open>simp add: algebra_simps\<close>, (use b bd in linarith)+)
  have d2': "(?A * 16 + b1) mod 64 = a0 * 16 + b1"
    by (rule int_mod_pos_eq [where q = a1]) (use a b in \<open>simp add: algebra_simps\<close>, (use a b in linarith)+)
  have d3: "?n div 64 = ?A * 1024 + ?B * 4 + c1"
    by (rule int_div_pos_eq [where r = c0]) (use c in \<open>simp add: algebra_simps\<close>, (use c in linarith)+)
  have d3': "(?A * 1024 + ?B * 4 + c1) mod 64 = b0 * 4 + c1"
    by (rule int_mod_pos_eq [where q = "?A * 16 + b1"]) (use b c in \<open>simp add: algebra_simps\<close>, (use b c in linarith)+)
  have d4: "?n mod 64 = c0"
    by (rule int_mod_pos_eq [where q = "?A * 1024 + ?B * 4 + c1"]) (use c in \<open>simp add: algebra_simps\<close>, (use c in linarith)+)
  have "sextets3 a b c = [nat a1, nat (a0 * 16 + b1), nat (b0 * 4 + c1), nat c0]"
    unfolding sextets3_def Let_def n js_and_3f
    using n_bd by (simp add: js_shr_eq d1 d1' d2 d2' d3 d3' d4)
  then show ?thesis
    unfolding a_def b_def c_def .
qed

lemma sextets2_eq:
  "sextets2 a b =
     [nat (uint a div 4), nat (uint a mod 4 * 16 + uint b div 16), nat (uint b mod 16 * 4)]"
proof -
  let ?A = "uint a" and ?B = "uint b"
  let ?n = "?A * 256 + ?B"
  note bd = uint_byte [of a] uint_byte [of b]
  obtain a1 a0 where a: "?A = a1 * 4 + a0" "0 \<le> a0" "a0 < 4" "0 \<le> a1" "a1 * 4 < 256"
    and a_def: "a1 = ?A div 4" "a0 = ?A mod 4" by (rule byte_parts [of 4 a]) simp
  obtain b1 b0 where b: "?B = b1 * 16 + b0" "0 \<le> b0" "b0 < 16" "0 \<le> b1" "b1 * 16 < 256"
    and b_def: "b1 = ?B div 16" "b0 = ?B mod 16" by (rule byte_parts [of 16 b]) simp
  have n: "js_shl ?A 8 + ?B = ?n"
    using bd by (simp add: js_shl_eq)
  have n_bd: "0 \<le> ?n" "?n < 2 ^ 31" "?n * 2 ^ 2 < 2 ^ 31" using bd by simp_all
  have d1: "?n div 1024 = a1"
    by (rule int_div_pos_eq [where r = "a0 * 256 + ?B"])
      (use a bd in \<open>simp add: algebra_simps\<close>, (use a bd in linarith)+)
  have d2: "?n div 16 = ?A * 16 + b1"
    by (rule int_div_pos_eq [where r = b0])
      (use b in \<open>simp add: algebra_simps\<close>, (use b in linarith)+)
  have d2': "(?A * 16 + b1) mod 64 = a0 * 16 + b1"
    by (rule int_mod_pos_eq [where q = a1])
      (use a b in \<open>simp add: algebra_simps\<close>, (use a b in linarith)+)
  have d3: "(?A * 1024 + ?B * 4) mod 64 = b0 * 4"
    by (rule int_mod_pos_eq [where q = "?A * 16 + b1"])
      (use b in \<open>simp add: algebra_simps\<close>, (use b in linarith)+)
  have s: "js_shl ?n 2 = ?A * 1024 + ?B * 4"
    using js_shl_eq [OF n_bd(1,3)] by simp
  have "sextets2 a b = [nat a1, nat (a0 * 16 + b1), nat (b0 * 4)]"
    unfolding sextets2_def Let_def n js_and_3f s
    using n_bd by (simp add: js_shr_eq d1 d2 d2' d3)
  then show ?thesis
    unfolding a_def b_def .
qed

lemma sextets1_eq:
  "sextets1 a = [nat (uint a div 4), nat (uint a mod 4 * 16)]"
proof -
  let ?A = "uint a"
  note bd = uint_byte [of a]
  obtain a1 a0 where a: "?A = a1 * 4 + a0" "0 \<le> a0" "a0 < 4" "0 \<le> a1" "a1 * 4 < 256"
    and a_def: "a1 = ?A div 4" "a0 = ?A mod 4" by (rule byte_parts [of 4 a]) simp
  have n_bd: "0 \<le> ?A" "?A < 2 ^ 31" "?A * 2 ^ 4 < 2 ^ 31" using bd by simp_all
  have d2: "(?A * 16) mod 64 = a0 * 16"
    by (rule int_mod_pos_eq [where q = a1])
      (use a in \<open>simp add: algebra_simps\<close>, (use a in linarith)+)
  have s: "js_shl ?A 4 = ?A * 16"
    using js_shl_eq [OF n_bd(1,3)] by simp
  have "sextets1 a = [nat a1, nat (a0 * 16)]"
    unfolding sextets1_def Let_def js_and_3f s
    using n_bd by (simp add: js_shr_eq d2 a_def)
  then show ?thesis
    unfolding a_def .
qed

lemma sextets_lt: "d \<in> set (sextets xs) \<Longrightarrow> d < BASE"
proof (induction xs arbitrary: d rule: sextets.induct)
  case (1 a b c xs)
  have "uint a div 4 < 64" "uint a mod 4 * 16 + uint b div 16 < 64"
    "uint b mod 16 * 4 + uint c div 64 < 64" "uint c mod 64 < 64"
    using uint_byte [of a] uint_byte [of b] uint_byte [of c] by simp_all
  then have "\<And>e. e \<in> set (sextets3 a b c) \<Longrightarrow> e < BASE"
    unfolding sextets3_eq by auto
  with 1 show ?case by auto
next
  case (2 a b)
  have "uint a div 4 < 64" "uint a mod 4 * 16 + uint b div 16 < 64" "uint b mod 16 * 4 < 64"
    using uint_byte [of a] uint_byte [of b] by simp_all
  with 2 show ?case
    unfolding sextets.simps sextets2_eq by auto
next
  case (3 a)
  have "uint a div 4 < 64" "uint a mod 4 * 16 < 64"
    using uint_byte [of a] by simp_all
  with 3 show ?case
    unfolding sextets.simps sextets1_eq by auto
next
  case 4
  then show ?case by simp
qed

lemma length_sextets: "length (sextets xs) = (4 * length xs + 2) div 3"
  by (induction xs rule: sextets.induct)
     (simp_all add: sextets3_eq sextets2_eq sextets1_eq)

lemma octets3_sextets3:
  "octets3 (nat (uint a div 4)) (nat (uint a mod 4 * 16 + uint b div 16))
     (nat (uint b mod 16 * 4 + uint c div 64)) (nat (uint c mod 64)) = [a, b, c]"
proof -
  let ?A = "uint a" and ?B = "uint b" and ?C = "uint c"
  let ?n = "?A * 65536 + ?B * 256 + ?C"
  note bd = uint_byte [of a] uint_byte [of b] uint_byte [of c]
  obtain a1 a0 where a: "?A = a1 * 4 + a0" "0 \<le> a0" "a0 < 4" "0 \<le> a1" "a1 * 4 < 256"
    and a_def: "a1 = ?A div 4" "a0 = ?A mod 4" by (rule byte_parts [of 4 a]) simp
  obtain b1 b0 where b: "?B = b1 * 16 + b0" "0 \<le> b0" "b0 < 16" "0 \<le> b1" "b1 * 16 < 256"
    and b_def: "b1 = ?B div 16" "b0 = ?B mod 16" by (rule byte_parts [of 16 b]) simp
  obtain c1 c0 where c: "?C = c1 * 64 + c0" "0 \<le> c0" "c0 < 64" "0 \<le> c1" "c1 * 64 < 256"
    and c_def: "c1 = ?C div 64" "c0 = ?C mod 64" by (rule byte_parts [of 64 c]) simp
  have s1: "js_shl a1 18 = a1 * 262144"
    using js_shl_eq [of a1 18] a by simp
  have s2: "js_shl (a0 * 16 + b1) 12 = (a0 * 16 + b1) * 4096"
    using js_shl_eq [of "a0 * 16 + b1" 12] a b by simp
  have s3: "js_shl (b0 * 4 + c1) 6 = (b0 * 4 + c1) * 64"
    using js_shl_eq [of "b0 * 4 + c1" 6] b c by simp
  have n: "a1 * 262144 + (a0 * 16 + b1) * 4096 + (b0 * 4 + c1) * 64 + c0 = ?n"
    using a b c by (simp add: algebra_simps)
  have n_bd: "0 \<le> ?n" "?n < 2 ^ 31" using bd by simp_all
  have e1: "?n div 65536 = ?A"
    by (rule int_div_pos_eq [where r = "?B * 256 + ?C"])
      (simp add: algebra_simps, (use bd in linarith)+)
  have e2: "?n div 256 = ?A * 256 + ?B"
    by (rule int_div_pos_eq [where r = "?C"])
      (simp add: algebra_simps, (use bd in linarith)+)
  have e2': "(?A * 256 + ?B) mod 256 = ?B"
    by (rule int_mod_pos_eq [where q = "?A"])
      (simp add: algebra_simps, (use bd in linarith)+)
  have e3: "?n mod 256 = ?C"
    by (rule int_mod_pos_eq [where q = "?A * 256 + ?B"])
      (simp add: algebra_simps, (use bd in linarith)+)
  have e1': "?A mod 256 = ?A" "?B mod 256 = ?B"
    using bd by simp_all
  have nn: "int (nat a1) = a1" "int (nat (a0 * 16 + b1)) = a0 * 16 + b1"
    "int (nat (b0 * 4 + c1)) = b0 * 4 + c1" "int (nat c0) = c0"
    using a b c by simp_all
  have "octets3 (nat a1) (nat (a0 * 16 + b1)) (nat (b0 * 4 + c1)) (nat c0) = [a, b, c]"
    unfolding octets3_def Let_def nn s1 s2 s3 n js_and_ff js_shr_eq [OF n_bd]
    by (simp add: e1 e1' e2 e2' e3)
  then show ?thesis
    unfolding a_def b_def c_def .
qed

lemma octets2_sextets2:
  "octets2 (nat (uint a div 4)) (nat (uint a mod 4 * 16 + uint b div 16))
     (nat (uint b mod 16 * 4)) = [a, b]"
proof -
  let ?A = "uint a" and ?B = "uint b"
  let ?n = "?A * 256 + ?B"
  note bd = uint_byte [of a] uint_byte [of b]
  obtain a1 a0 where a: "?A = a1 * 4 + a0" "0 \<le> a0" "a0 < 4" "0 \<le> a1" "a1 * 4 < 256"
    and a_def: "a1 = ?A div 4" "a0 = ?A mod 4" by (rule byte_parts [of 4 a]) simp
  obtain b1 b0 where b: "?B = b1 * 16 + b0" "0 \<le> b0" "b0 < 16" "0 \<le> b1" "b1 * 16 < 256"
    and b_def: "b1 = ?B div 16" "b0 = ?B mod 16" by (rule byte_parts [of 16 b]) simp
  have s1: "js_shl a1 10 = a1 * 1024"
    using js_shl_eq [of a1 10] a by simp
  have s2: "js_shl (a0 * 16 + b1) 4 = (a0 * 16 + b1) * 16"
    using js_shl_eq [of "a0 * 16 + b1" 4] a b by simp
  have s3: "js_shr (b0 * 4) 2 = b0"
    using js_shr_eq [of "b0 * 4" 2] b by simp
  have n: "a1 * 1024 + (a0 * 16 + b1) * 16 + b0 = ?n"
    using a b by (simp add: algebra_simps)
  have n_bd: "0 \<le> ?n" "?n < 2 ^ 31" using bd by simp_all
  have e2: "?n div 256 = ?A"
    by (rule int_div_pos_eq [where r = "?B"])
      (simp add: algebra_simps, (use bd in linarith)+)
  have e3: "?n mod 256 = ?B"
    by (rule int_mod_pos_eq [where q = "?A"])
      (simp add: algebra_simps, (use bd in linarith)+)
  have e1': "?A mod 256 = ?A" "?B mod 256 = ?B"
    using bd by simp_all
  have nn: "int (nat a1) = a1" "int (nat (a0 * 16 + b1)) = a0 * 16 + b1"
    "int (nat (b0 * 4)) = b0 * 4"
    using a b by simp_all
  have "octets2 (nat a1) (nat (a0 * 16 + b1)) (nat (b0 * 4)) = [a, b]"
    unfolding octets2_def Let_def nn s1 s2 s3 n js_and_ff js_shr_eq [OF n_bd]
    by (simp add: e1' e2 e3)
  then show ?thesis
    unfolding a_def b_def .
qed

lemma octets1_sextets1:
  "octets1 (nat (uint a div 4)) (nat (uint a mod 4 * 16)) = [a]"
proof -
  let ?A = "uint a"
  note bd = uint_byte [of a]
  obtain a1 a0 where a: "?A = a1 * 4 + a0" "0 \<le> a0" "a0 < 4" "0 \<le> a1" "a1 * 4 < 256"
    and a_def: "a1 = ?A div 4" "a0 = ?A mod 4" by (rule byte_parts [of 4 a]) simp
  have s1: "js_shl a1 2 = a1 * 4"
    using js_shl_eq [of a1 2] a by simp
  have s2: "js_shr (a0 * 16) 4 = a0"
    using js_shr_eq [of "a0 * 16" 4] a by simp
  have e1': "?A mod 256 = ?A"
    using bd by simp
  have nn: "int (nat a1) = a1" "int (nat (a0 * 16)) = a0 * 16"
    using a by simp_all
  have "octets1 (nat a1) (nat (a0 * 16)) = [a]"
    unfolding octets1_def Let_def nn s1 s2 a(1) [symmetric] js_and_ff
    by (simp add: e1')
  then show ?thesis
    unfolding a_def .
qed

lemma octets_sextets: "octets (sextets xs) = xs"
  by (induction xs rule: sextets.induct)
     (simp_all add: sextets3_eq sextets2_eq sextets1_eq
        octets3_sextets3 octets2_sextets2 octets1_sextets1)

lemma sliceIndex_eq: "sliceIndex len i = rangeIndex len i"
  by (cases i) (simp_all add: max.commute)

lemma rangeIndex_le: "rangeIndex len i \<le> len"
  by (cases i) auto

lemma startIndexOf_le: "startIndexOf len start \<le> len"
  by (cases start) (simp_all add: startIndexOf_def rangeIndex_le)

lemma endIndexOf_le: "endIndexOf len end \<le> len"
  by (cases "end") (simp_all add: endIndexOf_def rangeIndex_le)

lemma js_slice_eq:
  "js_slice xs start end =
     take (endIndexOf (length xs) end - startIndexOf (length xs) start)
       (drop (startIndexOf (length xs) start) xs)"
  by (cases start; cases "end")
     (simp_all add: js_slice_def startIndexOf_def endIndexOf_def sliceIndex_eq Let_def)

lemma length_js_slice:
  "length (js_slice xs start end) =
     endIndexOf (length xs) end - startIndexOf (length xs) start"
  using endIndexOf_le [of "length xs" "end"]
  by (simp add: js_slice_eq)

lemma startIndexOf_None: "startIndexOf len None = 0"
  by (simp add: startIndexOf_def)

lemma endIndexOf_None: "endIndexOf len None = len"
  by (simp add: endIndexOf_def)

lemma js_slice_None: "js_slice xs None None = xs"
  by (simp add: js_slice_eq startIndexOf_None endIndexOf_None)

subsection \<open>Writing a block into the result array\<close>

lemma length_write_at: "length (write_at i vs res) = length res"
  by (induction vs arbitrary: i res) simp_all

lemma write_at_append:
  "write_at i (vs @ ws) res = write_at (i + length vs) ws (write_at i vs res)"
  by (induction vs arbitrary: i res) simp_all

lemma write_at_take_drop:
  "i + length vs \<le> length res \<Longrightarrow>
   write_at i vs res = take i res @ vs @ drop (i + length vs) res"
proof (induction vs arbitrary: i res)
  case Nil
  then show ?case by simp
next
  case (Cons v vs)
  then have i: "i < length res" by simp
  have "write_at i (v # vs) res = write_at (Suc i) vs (res[i := v])"
    by simp
  also have "\<dots> = take (Suc i) (res[i := v]) @ vs @ drop (Suc i + length vs) (res[i := v])"
    using Cons.prems by (intro Cons.IH) simp
  also have "take (Suc i) (res[i := v]) = take i res @ [v]"
    using i by (simp add: take_Suc_conv_app_nth)
  also have "drop (Suc i + length vs) (res[i := v]) = drop (Suc i + length vs) res"
    by simp
  finally show ?case by simp
qed

lemma write_at_full: "length vs = length res \<Longrightarrow> write_at 0 vs res = vs"
  by (simp add: write_at_take_drop)

subsection \<open>Cutting a range into groups\<close>

lemma take_drop_Suc:
  "p < length xs \<Longrightarrow> take (Suc m) (drop p xs) = xs ! p # take m (drop (Suc p) xs)"
  by (simp add: Cons_nth_drop_Suc [symmetric])

lemma take3_drop:
  "p + 2 < length xs \<Longrightarrow>
   take (3 * Suc k) (drop p xs) = xs ! p # xs ! (p + 1) # xs ! (p + 2) # take (3 * k) (drop (p + 3) xs)"
proof -
  assume a: "p + 2 < length xs"
  have "3 * Suc k = Suc (Suc (Suc (3 * k)))" by simp
  then show ?thesis
    using a by (simp add: take_drop_Suc eval_nat_numeral)
qed

lemma take4_drop:
  "p + 3 < length xs \<Longrightarrow>
   take (4 * Suc k) (drop p xs) =
     xs ! p # xs ! (p + 1) # xs ! (p + 2) # xs ! (p + 3) # take (4 * k) (drop (p + 4) xs)"
proof -
  assume a: "p + 3 < length xs"
  have "4 * Suc k = Suc (Suc (Suc (Suc (4 * k))))" by simp
  then show ?thesis
    using a by (simp add: take_drop_Suc eval_nat_numeral)
qed

lemma take_divmod:
  "take n (drop p xs) = take (d * (n div d)) (drop p xs) @ take (n mod d) (drop (p + d * (n div d)) xs)"
proof -
  have "take n (drop p xs) = take (d * (n div d) + n mod d) (drop p xs)" by simp
  also have "\<dots> = take (d * (n div d)) (drop p xs) @ take (n mod d) (drop (d * (n div d)) (drop p xs))"
    by (rule take_add)
  finally show ?thesis by (simp add: add.commute)
qed

lemma sextets_append:
  "length xs = 3 * k \<Longrightarrow> sextets (xs @ ys) = sextets xs @ sextets ys"
proof (induction k arbitrary: xs)
  case 0
  then show ?case by simp
next
  case (Suc k)
  then obtain a b c zs where xs: "xs = a # b # c # zs" "length zs = 3 * k"
    by (cases xs; cases "tl xs"; cases "tl (tl xs)") auto
  then show ?case using Suc.IH [of zs] by simp
qed

subsection \<open>The loops of the encoders\<close>

lemma length_sextets3: "length (sextets3 a b c) = 4"
  by (simp add: sextets3_def Let_def)

lemma length_sextets2: "length (sextets2 a b) = 3"
  by (simp add: sextets2_def Let_def)

lemma length_sextets1: "length (sextets1 a) = 2"
  by (simp add: sextets1_def Let_def)

lemma encode_loop_end:
  "\<not> index < extraLength \<Longrightarrow>
   encode_loop bm input extraLength index ri res = (index, ri, res)"
  by (subst encode_loop.simps) simp

lemma encode_loop_step:
  "index < extraLength \<Longrightarrow>
   encode_loop bm input extraLength index ri res =
   encode_loop bm input extraLength (index + 3) (ri + 4)
     (write_at ri (map ((!) bm)
        (sextets3 (input ! index) (input ! (index + 1)) (input ! (index + 2)))) res)"
  by (subst encode_loop.simps) (simp add: sextets3_def Let_def numeral_3_eq_3)

lemma encode_loop_eq:
  "s + 3 * k \<le> length input \<Longrightarrow>
   encode_loop bm input (s + 3 * k) s ri res =
     (s + 3 * k, ri + 4 * k,
      write_at ri (map ((!) bm) (sextets (take (3 * k) (drop s input)))) res)"
proof (induction k arbitrary: s ri res)
  case 0
  then show ?case by (simp add: encode_loop_end)
next
  case (Suc k)
  let ?g = "sextets3 (input ! s) (input ! (s + 1)) (input ! (s + 2))"
  let ?res = "write_at ri (map ((!) bm) ?g) res"
  have "encode_loop bm input (s + 3 * Suc k) s ri res =
        encode_loop bm input (s + 3 + 3 * k) (s + 3) (ri + 4) ?res"
    using encode_loop_step [of s "s + 3 * Suc k" bm input ri res] by (simp add: add.assoc)
  also have "\<dots> = (s + 3 + 3 * k, ri + 4 + 4 * k,
      write_at (ri + 4) (map ((!) bm) (sextets (take (3 * k) (drop (s + 3) input)))) ?res)"
    using Suc.prems by (intro Suc.IH) simp
  also have "write_at (ri + 4) (map ((!) bm) (sextets (take (3 * k) (drop (s + 3) input)))) ?res
      = write_at ri (map ((!) bm) (?g @ sextets (take (3 * k) (drop (s + 3) input)))) res"
    by (simp add: write_at_append length_sextets3)
  also have "?g @ sextets (take (3 * k) (drop (s + 3) input)) =
      sextets (take (3 * Suc k) (drop s input))"
    using Suc.prems by (subst take3_drop) simp_all
  finally show ?case by simp
qed

lemma encodeToString_loop_end:
  "\<not> index < extraLength \<Longrightarrow>
   encodeToString_loop a input extraLength index res = (index, res)"
  by (subst encodeToString_loop.simps) simp

lemma encodeToString_loop_step:
  "index < extraLength \<Longrightarrow>
   encodeToString_loop a input extraLength index res =
   encodeToString_loop a input extraLength (index + 3)
     (res @ map ((!) a)
        (sextets3 (input ! index) (input ! (index + 1)) (input ! (index + 2))))"
  by (subst encodeToString_loop.simps) (simp add: sextets3_def Let_def)

lemma encodeToString_loop_eq:
  "s + 3 * k \<le> length input \<Longrightarrow>
   encodeToString_loop a input (s + 3 * k) s res =
     (s + 3 * k, res @ map ((!) a) (sextets (take (3 * k) (drop s input))))"
proof (induction k arbitrary: s res)
  case 0
  then show ?case by (simp add: encodeToString_loop_end)
next
  case (Suc k)
  let ?g = "sextets3 (input ! s) (input ! (s + 1)) (input ! (s + 2))"
  let ?res = "res @ map ((!) a) ?g"
  have "encodeToString_loop a input (s + 3 * Suc k) s res =
        encodeToString_loop a input (s + 3 + 3 * k) (s + 3) ?res"
    using encodeToString_loop_step [of s "s + 3 * Suc k" a input res] by (simp add: add.assoc)
  also have "\<dots> = (s + 3 + 3 * k,
      ?res @ map ((!) a) (sextets (take (3 * k) (drop (s + 3) input))))"
    using Suc.prems by (intro Suc.IH) simp
  also have "?res @ map ((!) a) (sextets (take (3 * k) (drop (s + 3) input)))
      = res @ map ((!) a) (?g @ sextets (take (3 * k) (drop (s + 3) input)))"
    by simp
  also have "?g @ sextets (take (3 * k) (drop (s + 3) input)) =
      sextets (take (3 * Suc k) (drop s input))"
    using Suc.prems by (subst take3_drop) simp_all
  finally show ?case by simp
qed

lemma take1_drop: "p < length xs \<Longrightarrow> take (Suc 0) (drop p xs) = [xs ! p]"
  using take_drop_Suc [of p xs 0] by simp

lemma take2_drop: "p + 1 < length xs \<Longrightarrow> take 2 (drop p xs) = [xs ! p, xs ! (p + 1)]"
  using take_drop_Suc [of p xs 1] take_drop_Suc [of "Suc p" xs 0]
  by (simp add: numeral_2_eq_2)

lemma range_groups:
  assumes "s < e" "e \<le> length input"
  shows "e - (e - s) mod d = s + d * ((e - s) div d)"
    and "s + d * ((e - s) div d) \<le> length input"
    and "s + d * ((e - s) div d) + (e - s) mod d = e"
proof -
  have "d * ((e - s) div d) + (e - s) mod d = e - s" by simp
  then show 1: "s + d * ((e - s) div d) + (e - s) mod d = e"
    using assms(1) by linarith
  then show "e - (e - s) mod d = s + d * ((e - s) div d)" by linarith
  show "s + d * ((e - s) div d) \<le> length input"
    using 1 assms(2) by linarith
qed

lemma encode_body:
  assumes "e \<le> length input"
  shows "(case encode_loop bm input (e - (e - s) mod 3) s 0 res of
            (index, resultIndex, result) \<Rightarrow>
              if (e - s) mod 3 = 1 then
                Inr (result[resultIndex := bm ! nat (js_shr (uint (input ! index)) 2),
                            resultIndex + 1 :=
                              bm ! nat (js_and (js_shl (uint (input ! index)) 4) 0x3f)])
              else if (e - s) mod 3 = 2 then
                Inr (result[resultIndex :=
                              bm ! nat (js_shr (js_shl (uint (input ! index)) 8
                                                 + uint (input ! (index + 1))) 10),
                            resultIndex + 1 :=
                              bm ! nat (js_and (js_shr (js_shl (uint (input ! index)) 8
                                                 + uint (input ! (index + 1))) 4) 0x3f),
                            resultIndex + 2 :=
                              bm ! nat (js_and (js_shl (js_shl (uint (input ! index)) 8
                                                 + uint (input ! (index + 1))) 2) 0x3f)])
              else (Inr result :: error + byte list))
         = Inr (write_at 0 (map ((!) bm) (sextets (take (e - s) (drop s input)))) res)"
proof (cases "s < e")
  case False
  then have "e - s = 0" by simp
  then show ?thesis
    using False by (simp add: encode_loop_end)
next
  case True
  let ?k = "(e - s) div 3" and ?r = "(e - s) mod 3"
  let ?p = "s + 3 * ?k"
  let ?F = "take (3 * ?k) (drop s input)"
  let ?W = "write_at 0 (map ((!) bm) (sextets ?F)) res"
  note g = range_groups [OF True assms, of 3]
  have loop: "encode_loop bm input (e - ?r) s 0 res = (?p, 4 * ?k, ?W)"
    unfolding g(1) using encode_loop_eq [OF g(2), of bm 0 res] by simp
  have xs: "take (e - s) (drop s input) = ?F @ take ?r (drop ?p input)"
    by (rule take_divmod)
  have lenF: "length ?F = 3 * ?k"
    using g(2) by simp
  have lenS: "length (sextets ?F) = 4 * ?k"
    unfolding length_sextets lenF by simp
  have app: "\<And>T. write_at 0 (map ((!) bm) (sextets (?F @ T))) res =
      write_at (4 * ?k) (map ((!) bm) (sextets T)) ?W"
    by (simp add: sextets_append [OF lenF] write_at_append lenS)
  consider "?r = 0" | "?r = 1" | "?r = 2" by linarith
  then show ?thesis
  proof cases
    case 1
    then show ?thesis
      unfolding loop xs by simp
  next
    case 2
    then have "?p < length input" using g(3) assms by linarith
    then have T: "take ?r (drop ?p input) = [input ! ?p]"
      using 2 by (simp add: take1_drop)
    show ?thesis
      unfolding loop xs T app using 2
      by (simp add: sextets1_def Let_def)
  next
    case 3
    then have "?p + 1 < length input" using g(3) assms by linarith
    then have T: "take ?r (drop ?p input) = [input ! ?p, input ! (?p + 1)]"
      using 3 by (simp add: take2_drop)
    show ?thesis
      unfolding loop xs T app using 3
      by (simp add: sextets2_def Let_def numeral_2_eq_2)
  qed
qed

lemma encode_eq:
  "encode this input start end =
     (case new_Uint8Array
             (js_trunc_quotient
                (js_or (js_shl (int (length (js_slice input start end))) 2) 2) 3) of
        Inl e \<Rightarrow> Inl e
      | Inr res \<Rightarrow>
          Inr (write_at 0 (map ((!) (baseMapSymbol this)) (sextets (js_slice input start end)))
                 res))"
  unfolding encode_def Let_def encode_body [OF endIndexOf_le] js_slice_eq
  by (simp add: min_absorb2 diff_le_mono endIndexOf_le)

lemma encodeToString_body:
  assumes "e \<le> length input"
  shows "(case encodeToString_loop a input (e - (e - s) mod 3) s [] of
            (index, result) \<Rightarrow>
              if (e - s) mod 3 \<noteq> 0 then
                (if (e - s) mod 3 = 1 then
                   (result @ [a ! nat (js_shr (uint (input ! index)) 2)])
                     @ [a ! nat (js_and (js_shl (uint (input ! index)) 4) 0x3f)]
                 else if (e - s) mod 3 = 2 then
                   ((result @ [a ! nat (js_shr (js_shl (uint (input ! index)) 8
                                                 + uint (input ! (index + 1))) 10)])
                     @ [a ! nat (js_and (js_shr (js_shl (uint (input ! index)) 8
                                                 + uint (input ! (index + 1))) 4) 0x3f)])
                     @ [a ! nat (js_and (js_shl (js_shl (uint (input ! index)) 8
                                                 + uint (input ! (index + 1))) 2) 0x3f)]
                 else result)
                @ replicate (3 - (e - s) mod 3) PADDING_CHAR
              else result)
         = map ((!) a) (sextets (take (e - s) (drop s input)))
           @ replicate ((3 - (e - s) mod 3) mod 3) PADDING_CHAR"
proof (cases "s < e")
  case False
  then have "e - s = 0" by simp
  then show ?thesis
    using False by (simp add: encodeToString_loop_end)
next
  case True
  let ?k = "(e - s) div 3" and ?r = "(e - s) mod 3"
  let ?p = "s + 3 * ?k"
  let ?F = "take (3 * ?k) (drop s input)"
  note g = range_groups [OF True assms, of 3]
  have loop: "encodeToString_loop a input (e - ?r) s [] = (?p, map ((!) a) (sextets ?F))"
    unfolding g(1) using encodeToString_loop_eq [OF g(2), of a "[]"] by simp
  have xs: "take (e - s) (drop s input) = ?F @ take ?r (drop ?p input)"
    by (rule take_divmod)
  have lenF: "length ?F = 3 * ?k"
    using g(2) by simp
  have app: "\<And>T. map ((!) a) (sextets (?F @ T)) =
      map ((!) a) (sextets ?F) @ map ((!) a) (sextets T)"
    by (simp add: sextets_append [OF lenF])
  consider "?r = 0" | "?r = 1" | "?r = 2" by linarith
  then show ?thesis
  proof cases
    case 1
    then show ?thesis
      unfolding loop xs by simp
  next
    case 2
    then have "?p < length input" using g(3) assms by linarith
    then have T: "take ?r (drop ?p input) = [input ! ?p]"
      using 2 by (simp add: take1_drop)
    show ?thesis
      unfolding loop xs T app using 2
      by (simp add: sextets1_def Let_def)
  next
    case 3
    then have "?p + 1 < length input" using g(3) assms by linarith
    then have T: "take ?r (drop ?p input) = [input ! ?p, input ! (?p + 1)]"
      using 3 by (simp add: take2_drop)
    show ?thesis
      unfolding loop xs T app using 3
      by (simp add: sextets2_def Let_def)
  qed
qed

lemma encodeToStringSymbol_eq:
  "encodeToStringSymbol this input start end =
     map ((!) (alphabetSymbol this)) (sextets (js_slice input start end))
     @ replicate ((3 - length (js_slice input start end) mod 3) mod 3) PADDING_CHAR"
  unfolding encodeToStringSymbol_def Let_def encodeToString_body [OF endIndexOf_le]
    js_slice_eq
  by (simp add: min_absorb2 diff_le_mono endIndexOf_le)

lemma lookup_all_append:
  "lookup_all lk msg i (xs @ ys) =
     (case lookup_all lk msg i xs of
        Inl e \<Rightarrow> Inl e
      | Inr ds \<Rightarrow>
          (case lookup_all lk msg (i + length xs) ys of
             Inl e \<Rightarrow> Inl e
           | Inr es \<Rightarrow> Inr (ds @ es)))"
  by (induction xs arbitrary: i) (auto split: option.splits sum.splits)

lemma lookup_all_length: "lookup_all lk msg i xs = Inr ds \<Longrightarrow> length ds = length xs"
  by (induction xs arbitrary: i ds) (auto split: option.splits sum.splits)

lemma length_octets3: "length (octets3 i j k l) = 3"
  by (simp add: octets3_def Let_def)

lemma octets_append:
  "length ds = 4 * k \<Longrightarrow> octets (ds @ es) = octets ds @ octets es"
proof (induction k arbitrary: ds)
  case 0
  then show ?case by simp
next
  case (Suc k)
  then obtain a b c d zs where ds: "ds = a # b # c # d # zs" "length zs = 4 * k"
    by (cases ds; cases "tl ds"; cases "tl (tl ds)"; cases "tl (tl (tl ds))") auto
  then show ?case using Suc.IH [of zs] by simp
qed

lemma length_octets_groups: "length ds = 4 * k \<Longrightarrow> length (octets ds) = 3 * k"
proof (induction k arbitrary: ds)
  case 0
  then show ?case by simp
next
  case (Suc k)
  then obtain a b c d zs where ds: "ds = a # b # c # d # zs" "length zs = 4 * k"
    by (cases ds; cases "tl ds"; cases "tl (tl ds)"; cases "tl (tl (tl ds))") auto
  then show ?case using Suc.IH [of zs] by (simp add: length_octets3)
qed

subsection \<open>The loop and the final group of the decoders\<close>

lemma decode_loop_end:
  "\<not> index < extraLength \<Longrightarrow>
   decode_loop lk msg input extraLength index ri res = Inr (index, ri, res)"
  by (subst decode_loop.simps) simp

lemma decode_loop_step:
  "index < extraLength \<Longrightarrow>
   decode_loop lk msg input extraLength index ri res =
     (case lookup_all lk msg index
             [input ! index, input ! (index + 1), input ! (index + 2), input ! (index + 3)] of
        Inl e \<Rightarrow> Inl e
      | Inr ds \<Rightarrow>
          decode_loop lk msg input extraLength (index + 4) (ri + 3)
            (write_at ri (octets ds) res))"
  by (subst decode_loop.simps)
     (simp add: lookupAt_def octets3_def Let_def numeral_3_eq_3 numeral_2_eq_2
        split: option.splits)

lemma decode_loop_eq:
  "s + 4 * k \<le> length input \<Longrightarrow>
   decode_loop lk msg input (s + 4 * k) s ri res =
     (case lookup_all lk msg s (take (4 * k) (drop s input)) of
        Inl e \<Rightarrow> Inl e
      | Inr ds \<Rightarrow> Inr (s + 4 * k, ri + 3 * k, write_at ri (octets ds) res))"
proof (induction k arbitrary: s ri res)
  case 0
  then show ?case by (simp add: decode_loop_end)
next
  case (Suc k)
  let ?G = "[input ! s, input ! (s + 1), input ! (s + 2), input ! (s + 3)]"
  let ?R = "take (4 * k) (drop (s + 4) input)"
  have lenG: "length ?G = 4" by simp
  have cut: "take (4 * Suc k) (drop s input) = ?G @ ?R"
    using Suc.prems by (subst take4_drop) simp_all
  show ?case
  proof (cases "lookup_all lk msg s ?G")
    case (Inl e)
    then show ?thesis
      unfolding cut lookup_all_append
      using decode_loop_step [where index = s and extraLength = "s + 4 * Suc k" and lk = lk and msg = msg and input = input and ri = ri and res = res] by simp
  next
    case (Inr ds)
    then have len: "length ds = 4 * 1"
      using lookup_all_length [OF Inr] by simp
    let ?res = "write_at ri (octets ds) res"
    have "decode_loop lk msg input (s + 4 * Suc k) s ri res =
          decode_loop lk msg input (s + 4 + 4 * k) (s + 4) (ri + 3) ?res"
      using decode_loop_step [where index = s and extraLength = "s + 4 * Suc k" and lk = lk and msg = msg and input = input and ri = ri and res = res] Inr
      by (simp add: add.assoc)
    also have "\<dots> = (case lookup_all lk msg (s + 4) ?R of
        Inl e \<Rightarrow> Inl e
      | Inr es \<Rightarrow> Inr (s + 4 + 4 * k, ri + 3 + 3 * k, write_at (ri + 3) (octets es) ?res))"
      using Suc.prems by (intro Suc.IH) simp
    also have "\<dots> = (case lookup_all lk msg s (?G @ ?R) of
        Inl e \<Rightarrow> Inl e
      | Inr ds \<Rightarrow> Inr (s + 4 * Suc k, ri + 3 * Suc k, write_at ri (octets ds) res))"
      unfolding lookup_all_append lenG Inr
      using length_octets_groups [OF len]
      by (simp add: octets_append [OF len] write_at_append split: sum.splits)
    finally show ?thesis
      unfolding cut .
  qed
qed

lemma decode_tail_eq:
  assumes "r < 4" "p + r \<le> length input"
  shows "decode_tail lk msg input r p ri res =
     (case lookup_all lk msg p (take r (drop p input)) of
        Inl e \<Rightarrow> Inl e
      | Inr ds \<Rightarrow> Inr (write_at ri (octets ds) res))"
proof -
  consider "r = 0" | "r = 1" | "r = 2" | "r = 3" using assms(1) by linarith
  then show ?thesis
  proof cases
    case 1
    then show ?thesis by (simp add: decode_tail_def)
  next
    case 2
    then have "take r (drop p input) = [input ! p]"
      using assms(2) by (simp add: take1_drop)
    then show ?thesis
      using 2 by (simp add: decode_tail_def lookupAt_def Let_def split: option.splits)
  next
    case 3
    then have "take r (drop p input) = [input ! p, input ! (p + 1)]"
      using assms(2) by (simp add: take2_drop)
    then show ?thesis
      using 3 by (simp add: decode_tail_def lookupAt_def octets1_def Let_def
          split: option.splits)
  next
    case 4
    then have "take r (drop p input) = [input ! p, input ! (p + 1), input ! (p + 2)]"
      using assms(2) take_drop_Suc [of p input 2] take2_drop [of "Suc p" input]
      by (simp add: numeral_3_eq_3 numeral_2_eq_2)
    then show ?thesis
      using 4 by (simp add: decode_tail_def lookupAt_def octets2_def Let_def numeral_2_eq_2
          split: option.splits)
  qed
qed

lemma decode_body:
  assumes "s + n \<le> length input"
    and "eL = s + n - n mod 4 \<or> n = 0 \<and> eL \<le> s"
  shows "(case decode_loop lk msg input eL s 0 res of
            Inl e \<Rightarrow> Inl e
          | Inr (index, resultIndex, result) \<Rightarrow>
              decode_tail lk msg input (n mod 4) index resultIndex result)
         = (case lookup_all lk msg s (take n (drop s input)) of
              Inl e \<Rightarrow> Inl e
            | Inr ds \<Rightarrow> Inr (write_at 0 (octets ds) res))"
proof (cases "n = 0")
  case True
  then have "\<not> s < eL" using assms(2) by auto
  then show ?thesis
    using True by (simp add: decode_loop_end decode_tail_def)
next
  case False
  let ?k = "n div 4" and ?r = "n mod 4"
  let ?p = "s + 4 * ?k"
  let ?F = "take (4 * ?k) (drop s input)"
  let ?T = "take ?r (drop ?p input)"
  have n: "4 * ?k + ?r = n" by simp
  have eL: "eL = ?p" using assms(2) False n by linarith
  have p: "?p \<le> length input" "?p + ?r \<le> length input"
    using assms(1) n by linarith+
  have xs: "take n (drop s input) = ?F @ ?T"
    by (rule take_divmod)
  have lenF: "length ?F = 4 * ?k"
    using p by simp
  show ?thesis
  proof (cases "lookup_all lk msg s ?F")
    case (Inl e)
    then show ?thesis
      unfolding eL xs lookup_all_append lenF decode_loop_eq [OF p(1)] by simp
  next
    case (Inr ds)
    have len: "length ds = 4 * ?k"
      using lookup_all_length [OF Inr] lenF by simp
    show ?thesis
      unfolding eL xs lookup_all_append lenF decode_loop_eq [OF p(1)] Inr
      using length_octets_groups [OF len]
      by (simp add: decode_tail_eq [OF _ p(2)] octets_append [OF len] write_at_append
          split: sum.splits)
  qed
qed

lemma range_sum:
  "startIndexOf (length input) start
     + (endIndexOf (length input) end - startIndexOf (length input) start) \<le> length input"
  using startIndexOf_le [of "length input" start] endIndexOf_le [of "length input" "end"]
  by linarith

lemma decode_eq:
  "decode this input start end =
     (case new_Uint8Array (js_shr (int (length (js_slice input start end)) * 3) 2) of
        Inl e \<Rightarrow> Inl e
      | Inr res \<Rightarrow>
          (case lookup_all (\<lambda>charCode. baseMapLookupSymbol this (unat charCode)) InvalidByte
                  (startIndexOf (length input) start) (js_slice input start end) of
             Inl e \<Rightarrow> Inl e
           | Inr ds \<Rightarrow> Inr (write_at 0 (octets ds) res)))"
proof -
  let ?s = "startIndexOf (length input) start" and ?e = "endIndexOf (length input) end"
  have eL: "?e - (?e - ?s) mod 4 = ?s + (?e - ?s) - (?e - ?s) mod 4
            \<or> ?e - ?s = 0 \<and> ?e - (?e - ?s) mod 4 \<le> ?s"
    by (cases "?s \<le> ?e") auto
  show ?thesis
    unfolding decode_def Let_def decode_body [OF range_sum eL] js_slice_eq
    by (simp add: min_absorb2 diff_le_mono endIndexOf_le)
qed

lemma paddingOf_groups:
  assumes "length xs = n" "4 \<le> n" "n mod 4 = 0"
  shows "paddingOf xs =
     (if xs ! (n - 1) \<noteq> PADDING_CHAR then 0
      else if xs ! (n - 2) \<noteq> PADDING_CHAR then 1 else 2)"
  using assms by (auto simp: paddingOf_def Let_def)

lemma paddingCount_loop_eq:
  assumes "e \<le> length string" "(e - s) mod 4 = 0"
  shows "paddingCount_loop string (e - s) (int e - 1) 0 = paddingOf (take (e - s) (drop s string))"
proof (cases "e - s = 0")
  case True
  then show ?thesis
    by (subst paddingCount_loop.simps) (simp add: paddingOf_def)
next
  case False
  let ?n = "e - s" and ?xs = "take (e - s) (drop s string)"
  have n: "4 \<le> ?n" using False assms(2) by presburger
  then have se: "s < e" "Suc 0 < e - s" by linarith+
  have len: "length ?xs = ?n" using assms(1) by simp
  have x1: "?xs ! (?n - 1) = string ! nat (int e - 1 - int 0)"
    using n assms(1) by (simp add: nat_diff_distrib' add.commute)
  have x2: "?xs ! (?n - 2) = string ! nat (int e - 1 - int 1)"
    using n assms(1) by (simp add: nat_diff_distrib' add.commute)
  have l0: "paddingCount_loop string ?n (int e - 1) 0 =
      (if string ! nat (int e - 1 - int 0) = PADDING_CHAR
       then paddingCount_loop string ?n (int e - 1) 1 else 0)"
    using se by (subst paddingCount_loop.simps) simp
  have l1: "paddingCount_loop string ?n (int e - 1) 1 =
      (if string ! nat (int e - 1 - int 1) = PADDING_CHAR
       then paddingCount_loop string ?n (int e - 1) 2 else 1)"
    using se by (subst paddingCount_loop.simps) (simp add: numeral_2_eq_2)
  have l2: "paddingCount_loop string ?n (int e - 1) 2 = 2"
    by (subst paddingCount_loop.simps) simp
  show ?thesis
    unfolding l0 l1 l2 paddingOf_groups [OF len n assms(2)] x1 x2
    by simp
qed

lemma paddingOf_le: "paddingOf xs \<le> length xs"
proof -
  have "4 \<le> length xs" if "length xs mod 4 = 0" "length xs \<noteq> 0"
    using that by presburger
  then show ?thesis
    by (fastforce simp: paddingOf_def Let_def)
qed

lemma decodeFromStringSymbol_eq:
  "decodeFromStringSymbol this string start end =
     (let xs = js_slice string start end;
          v = take (length xs - paddingOf xs) xs
      in case new_Uint8Array (js_shr (int (length v) * 3) 2) of
           Inl e \<Rightarrow> Inl e
         | Inr res \<Rightarrow>
             (case lookup_all (alphabetLookupSymbol this) InvalidCharacter
                     (startIndexOf (length string) start) v of
                Inl e \<Rightarrow> Inl e
              | Inr ds \<Rightarrow> Inr (write_at 0 (octets ds) res)))"
proof -
  let ?s = "startIndexOf (length string) start" and ?e = "endIndexOf (length string) end"
  let ?xs = "take (?e - ?s) (drop ?s string)"
  let ?pc = "if (?e - ?s) mod 4 = 0 then paddingCount_loop string (?e - ?s) (int ?e - 1) 0 else 0"
  have pc: "?pc = paddingOf ?xs"
  proof (cases "(?e - ?s) mod 4 = 0")
    case True
    then show ?thesis
      using paddingCount_loop_eq [OF endIndexOf_le True] by simp
  next
    case False
    then show ?thesis
      using endIndexOf_le [of "length string" "end"]
      by (simp add: paddingOf_def min_absorb2 diff_le_mono)
  qed
  have len: "length ?xs = ?e - ?s"
    using endIndexOf_le [of "length string" "end"] by simp
  let ?v = "?e - ?s - paddingOf ?xs"
  have v: "?s + ?v \<le> length string"
    using range_sum [of string start "end"] by linarith
  have take: "take ?v (drop ?s string) = take ?v ?xs"
    by (simp add: min_absorb1)
  have lenv: "length (take ?v ?xs) = ?v"
    using len by simp
  show ?thesis
    unfolding decodeFromStringSymbol_def Let_def pc js_slice_eq len
      decode_body [OF v disjI1 [OF refl]] take lenv
    by simp
qed

lemma lookup_all_offset:
  assumes "\<And>c i. error_at_offset k (SyntaxError (msg c i)) = SyntaxError (msg c (k + i))"
  shows "lookup_all lk msg (k + i) xs = result_at_offset k (lookup_all lk msg i xs)"
proof (induction xs arbitrary: i)
  case Nil
  then show ?case by (simp add: result_at_offset_def)
next
  case (Cons x xs)
  have "lookup_all lk msg (k + i + 1) xs =
        result_at_offset k (lookup_all lk msg (i + 1) xs)"
    using Cons.IH [of "i + 1"] by (simp add: add.assoc)
  then show ?case
    by (simp add: assms result_at_offset_def split: option.splits sum.splits)
qed


subsection \<open>Sizes of the allocated arrays\<close>

lemma encode_size:
  assumes "n < 2 ^ 29"
  shows "new_Uint8Array (js_trunc_quotient (js_or (js_shl (int n) 2) 2) 3)
         = Inr (replicate ((4 * n + 2) div 3) 0)"
proof -
  have "js_or (js_shl (int n) 2) 2 = 4 * int n + 2"
    using assms by (intro js_or_2) simp_all
  moreover have "nat ((4 * int n + 2) div 3) = (4 * n + 2) div 3"
    by (simp add: nat_div_distrib nat_add_distrib nat_mult_distrib)
  ultimately show ?thesis
    by (simp add: js_trunc_quotient_def new_Uint8Array_def pos_imp_zdiv_nonneg_iff)
qed

lemma decode_size:
  assumes "3 * m < 2 ^ 31"
  shows "new_Uint8Array (js_shr (int m * 3) 2) = Inr (replicate ((3 * m) div 4) 0)"
proof -
  have "int (3 * m) < int (2 ^ 31)"
    using assms by (simp only: of_nat_less_iff)
  then have "int m * 3 < 2 ^ 31" by simp
  then have "js_shr (int m * 3) 2 = (int m * 3) div 2 ^ 2"
    by (intro js_shr_eq) simp_all
  moreover have "nat ((int m * 3) div 4) = (3 * m) div 4"
    by (simp add: nat_div_distrib nat_mult_distrib mult.commute)
  ultimately show ?thesis
    by (simp add: new_Uint8Array_def pos_imp_zdiv_nonneg_iff)
qed

lemma encoded_length_bound: "n < 2 ^ 29 \<Longrightarrow> 3 * ((4 * n + 2) div 3) < (2 ^ 31 :: nat)"
proof -
  assume "n < 2 ^ 29"
  then have "4 * n + 2 < 2 ^ 31" by simp
  moreover have "3 * ((4 * n + 2) div 3) \<le> 4 * n + 2" by simp
  ultimately show ?thesis by linarith
qed

lemma encoded_length:
  "(4 * n + 2) div 3 = 4 * (n div 3) + (if n mod 3 = 0 then 0 else n mod 3 + 1)" for n :: nat
proof -
  define q r where "q = n div 3" and "r = n mod 3"
  have n: "n = 3 * q + r" and r: "r < 3" by (simp_all add: q_def r_def)
  consider "r = 0" | "r = 1" | "r = 2" using r by linarith
  then have "(4 * n + 2) div 3 = 4 * q + (if r = 0 then 0 else r + 1)"
  proof cases
    case 1
    then have "4 * n + 2 = 2 + 4 * q * 3" using n by simp
    then have "(4 * n + 2) div 3 = 4 * q" by simp
    then show ?thesis using 1 by simp
  next
    case 2
    then have "4 * n + 2 = 0 + (4 * q + 2) * 3" using n by simp
    then have "(4 * n + 2) div 3 = 4 * q + 2" by simp
    then show ?thesis using 2 by simp
  next
    case 3
    then have "4 * n + 2 = 1 + (4 * q + 3) * 3" using n by simp
    then have "(4 * n + 2) div 3 = 4 * q + 3" by simp
    then show ?thesis using 3 by simp
  qed
  then show ?thesis by (simp add: q_def r_def)
qed

lemma decoded_length: "(3 * ((4 * n + 2) div 3)) div 4 = (n :: nat)"
proof -
  define q r where "q = n div 3" and "r = n mod 3"
  have n: "n = 3 * q + r" and r: "r < 3" by (simp_all add: q_def r_def)
  have e: "(4 * n + 2) div 3 = 4 * q + (if r = 0 then 0 else r + 1)"
    unfolding encoded_length by (simp add: q_def r_def)
  consider "r = 0" | "r = 1" | "r = 2" using r by linarith
  then show ?thesis
  proof cases
    case 1
    then have "3 * ((4 * n + 2) div 3) = 0 + n * 4" using n e by simp
    then show ?thesis by simp
  next
    case 2
    then have "3 * ((4 * n + 2) div 3) = 2 + n * 4" using n e by simp
    then show ?thesis by simp
  next
    case 3
    then have "3 * ((4 * n + 2) div 3) = 1 + n * 4" using n e by simp
    then show ?thesis by simp
  qed
qed

subsection \<open>The byte tables of an instance\<close>

lemma instance_baseMap_nth:
  assumes inst: "new_Base64 alphabet = Inr this" and d: "d < BASE"
  shows "baseMapSymbol this ! d = of_nat (unat (alphabetSymbol this ! d))"
    and "baseMapLookupSymbol this (unat (baseMapSymbol this ! d)) = Some d"
    and "baseMapSymbol this ! d \<noteq> PADDING_BYTE"
proof -
  let ?c = "alphabetSymbol this ! d"
  have len: "length (alphabetSymbol this) = BASE" by (rule instance_facts(1) [OF inst])
  show 1: "baseMapSymbol this ! d = of_nat (unat ?c)"
    using d len by (simp add: instance_facts(5) [OF inst])
  have "?c \<in> set ALPHABET"
    using d len nth_mem [of d "alphabetSymbol this"] by (simp add: instance_facts(3) [OF inst])
  then have ascii: "unat ?c < 128" by (rule ALPHABET_ascii)
  then have u: "unat (of_nat (unat ?c) :: byte) = unat ?c"
    by (simp add: unsigned_ucast_eq take_bit_eq_mod)
  show "baseMapLookupSymbol this (unat (baseMapSymbol this ! d)) = Some d"
    unfolding 1 u instance_facts(6) [OF inst] using d by simp
  have "?c \<noteq> PADDING_CHAR"
    using instance_digit_notin [OF inst d PADDING_CHAR_notin] .
  then have "unat ?c \<noteq> unat PADDING_CHAR"
    by (simp add: word_unat_eq_iff)
  moreover have "unat PADDING_CHAR < 128"
    by (simp add: PADDING_CHAR_def jschr_def)
  then have "unat (of_nat (unat PADDING_CHAR) :: byte) = unat PADDING_CHAR"
    by (simp add: unsigned_ucast_eq take_bit_eq_mod)
  ultimately show "baseMapSymbol this ! d \<noteq> PADDING_BYTE"
    unfolding 1 PADDING_BYTE_def using u by metis
qed

lemma instance_PADDING_BYTE:
  assumes inst: "new_Base64 alphabet = Inr this"
  shows "baseMapLookupSymbol this (unat PADDING_BYTE) = None"
proof -
  have "unat PADDING_BYTE = unat PADDING_CHAR"
    by (simp add: PADDING_BYTE_def PADDING_CHAR_def jschr_def)
  moreover have "baseMapLookupSymbol this (unat PADDING_CHAR) \<noteq> Some i" for i
    unfolding instance_facts(6) [OF inst]
    using instance_digit_notin [OF inst _ PADDING_CHAR_notin, of i]
    by (auto simp: word_unat_eq_iff [symmetric])
  ultimately show ?thesis
    by (cases "baseMapLookupSymbol this (unat PADDING_BYTE)") auto
qed

lemma lookup_all_map:
  assumes "\<And>d. d \<in> set ds \<Longrightarrow> lk (f d) = Some d"
  shows "lookup_all lk msg i (map f ds) = Inr ds"
  using assms by (induction ds arbitrary: i) simp_all

lemma lookup_all_invalid:
  assumes "x \<in> set xs" "lk x = None"
  shows "\<exists>e. lookup_all lk msg i xs = Inl e"
  using assms(1)
proof (induction xs arbitrary: i)
  case Nil
  then show ?case by simp
next
  case (Cons a xs)
  show ?case
  proof (cases "lk a")
    case None
    then show ?thesis by simp
  next
    case (Some d)
    then have "x \<noteq> a" using assms(2) by auto
    then have "x \<in> set xs" using Cons.prems by simp
    then obtain e where "lookup_all lk msg (i + 1) xs = Inl e"
      using Cons.IH by blast
    then show ?thesis using Some by simp
  qed
qed

subsection \<open>Encoding and decoding below the 32-bit limit\<close>

lemma encode_Inr:
  assumes "length (js_slice input start end) < 2 ^ 29"
  shows "encode this input start end =
           Inr (map ((!) (baseMapSymbol this)) (sextets (js_slice input start end)))"
  unfolding encode_eq encode_size [OF assms]
  by (simp add: write_at_full length_sextets)

lemma decode_encoded_bytes:
  assumes inst: "new_Base64 alphabet = Inr this" and "length B < 2 ^ 29"
  shows "decode this (map ((!) (baseMapSymbol this)) (sextets B)) None None = Inr B"
proof -
  let ?E = "map ((!) (baseMapSymbol this)) (sextets B)"
  have len: "length ?E = (4 * length B + 2) div 3" by (simp add: length_sextets)
  have size: "new_Uint8Array (js_shr (int (length ?E) * 3) 2) = Inr (replicate (length B) 0)"
    unfolding len
    using decode_size [OF encoded_length_bound [OF assms(2)]] by (simp add: decoded_length)
  have look: "lookup_all (\<lambda>charCode. baseMapLookupSymbol this (unat charCode)) InvalidByte 0 ?E
      = Inr (sextets B)"
    by (rule lookup_all_map) (simp add: instance_baseMap_nth(2) [OF inst] sextets_lt)
  show ?thesis
    unfolding decode_eq js_slice_None startIndexOf_None size look
    by (simp add: octets_sextets write_at_full)
qed

lemma replicate_numeral_Cons: "replicate (numeral k) x = x # replicate (pred_numeral k) x"
  by (simp add: numeral_eq_Suc)

lemmas js_defs = js_shl_def js_shr_def js_and_def js_or_def js_trunc_quotient_def
  new_Uint8Array_def startIndexOf_def endIndexOf_def

lemmas codec_defs = encode_def decode_def encodeToString_def encodeToStringSymbol_def
  decodeFromString_def decodeFromStringSymbol_def encodeText_def
  encode_loop.simps encodeToString_loop.simps decode_loop.simps paddingCount_loop.simps
  decode_tail_def lookupAt_def

subsection \<open>Round trip through the buffer codec\<close>

lemma decode_encode:
  assumes "new_Base64 alphabet = Inr this" and "length B < 2 ^ 29"
  shows "\<exists>E. encode this B None None = Inr E \<and> decode this E None None = Inr B"
proof -
  have "encode this B None None = Inr (map ((!) (baseMapSymbol this)) (sextets B))"
    using encode_Inr [of B None None this] assms(2) by (simp add: js_slice_None)
  then show ?thesis
    using decode_encoded_bytes [OF assms] by simp
qed

text \<open>
  C3. The claim: for every byte sequence \<open>B\<close> of every length, \<open>decode(encode(B))\<close> is
  \<open>B\<close>. Below \<open>2 ^ 29\<close> bytes it holds (\<open>decode_encode\<close>). At \<open>2 ^ 29\<close> bytes the size
  \<open>(newLength << 2 | 2) / 3\<close> of the output array is computed from a 32-bit shift that has
  wrapped to a negative number, and \<open>encode\<close> raises \<open>RangeError\<close>.
\<close>

theorem encode_large_input_RangeError:
  "encode base64 (replicate 536870912 0) None None = Inl (RangeError InvalidTypedArrayLength)"
  by (simp add: encode_def js_defs Let_def)

subsection \<open>Padding\<close>

lemma encoded_bytes_no_padding:
  assumes "new_Base64 alphabet = Inr this"
  shows "PADDING_BYTE \<notin> set (map ((!) (baseMapSymbol this)) (sextets xs))"
proof
  assume "PADDING_BYTE \<in> set (map ((!) (baseMapSymbol this)) (sextets xs))"
  then obtain d where d: "d \<in> set (sextets xs)" "baseMapSymbol this ! d = PADDING_BYTE"
    by auto
  then have "d < BASE" by (simp add: sextets_lt)
  then show False
    using instance_baseMap_nth(3) [OF assms] d(2) by blast
qed

lemma encoded_chars_no_padding:
  assumes "new_Base64 alphabet = Inr this"
  shows "PADDING_CHAR \<notin> set (map ((!) (alphabetSymbol this)) (sextets xs))"
proof
  assume "PADDING_CHAR \<in> set (map ((!) (alphabetSymbol this)) (sextets xs))"
  then obtain d where d: "d \<in> set (sextets xs)" "alphabetSymbol this ! d = PADDING_CHAR"
    by auto
  then have "d < BASE" by (simp add: sextets_lt)
  then show False
    using instance_digit_notin [OF assms _ PADDING_CHAR_notin] d(2) by blast
qed

lemma padding_length:
  "(4 * (n div 3) + (if n mod 3 = 0 then 0 else n mod 3 + 1) + (3 - n mod 3) mod 3) mod 4 = 0"
  for n :: nat
proof -
  consider "n mod 3 = 0" | "n mod 3 = 1" | "n mod 3 = 2" by linarith
  then show ?thesis by cases simp_all
qed

lemma sextets3_fields:
  "sextets3 a b c =
     (let n = unat a * 65536 + unat b * 256 + unat c
      in [n div 262144 mod 64, n div 4096 mod 64, n div 64 mod 64, n mod 64])"
proof -
  let ?N = "unat a * 65536 + unat b * 256 + unat c"
  let ?n = "uint a * 65536 + uint b * 256 + uint c"
  note bd = uint_byte [of a] uint_byte [of b] uint_byte [of c]
  have n: "js_shl (uint a) 16 + js_shl (uint b) 8 + uint c = ?n"
    using bd by (simp add: js_shl_eq)
  have n_bd: "0 \<le> ?n" "?n < 2 ^ 31" using bd by simp_all
  have N: "?n = int ?N" by simp
  have f: "nat (int ?N div int k mod 64) = ?N div k mod 64" for k :: nat
  proof -
    have "int (?N div k mod 64) = int ?N div int k mod 64"
      unfolding zmod_int zdiv_int by simp
    then show ?thesis by (metis nat_int)
  qed
  have f0: "nat (int ?N mod 64) = ?N mod 64"
  proof -
    have "int (?N mod 64) = int ?N mod 64"
      unfolding zmod_int by simp
    then show ?thesis by (metis nat_int)
  qed
  have s: "js_shr ?n 18 = ?n div int 262144" "js_shr ?n 12 = ?n div int 4096"
    "js_shr ?n 6 = ?n div int 64"
    using n_bd by (simp_all add: js_shr_eq)
  have "sextets3 a b c =
      [nat (?n div int 262144 mod 64), nat (?n div int 4096 mod 64),
       nat (?n div int 64 mod 64), nat (?n mod 64)]"
    unfolding sextets3_def Let_def n js_and_3f s by (rule refl)
  then have "sextets3 a b c =
      [nat (int ?N div int 262144 mod 64), nat (int ?N div int 4096 mod 64),
       nat (int ?N div int 64 mod 64), nat (int ?N mod 64)]"
    unfolding N .
  then show ?thesis
    unfolding f f0 Let_def .
qed

lemma sextets_groupIndices: "sextets xs = groupIndices xs"
proof (induction xs rule: sextets.induct)
  case (1 a b c xs)
  then show ?case by (simp add: sextets3_fields)
next
  case (2 a b)
  have "int (unat a div 4) = uint a div 4"
    "int (unat a mod 4 * 16 + unat b div 16) = uint a mod 4 * 16 + uint b div 16"
    "int (unat b mod 16 * 4) = uint b mod 16 * 4"
    by (simp_all add: zdiv_int zmod_int)
  then have "nat (uint a div 4) = unat a div 4"
    "nat (uint a mod 4 * 16 + uint b div 16) = unat a mod 4 * 16 + unat b div 16"
    "nat (uint b mod 16 * 4) = unat b mod 16 * 4"
    by (metis nat_int)+
  then show ?case by (simp add: sextets2_eq)
next
  case (3 a)
  have "int (unat a div 4) = uint a div 4" "int (unat a mod 4 * 16) = uint a mod 4 * 16"
    by (simp_all add: zdiv_int zmod_int)
  then have "nat (uint a div 4) = unat a div 4" "nat (uint a mod 4 * 16) = unat a mod 4 * 16"
    by (metis nat_int)+
  then show ?case by (simp add: sextets1_eq)
next
  case 4
  then show ?case by simp
qed

lemma groupIndices_lt: "list_all (\<lambda>d. d < BASE) (groupIndices xs)"
  unfolding list_all_iff sextets_groupIndices [symmetric]
  using sextets_lt by blast

lemma encoded_same_symbols:
  assumes inst: "new_Base64 alphabet = Inr this"
  shows "map ((!) (baseMapSymbol this)) (sextets xs)
       = map (\<lambda>c. of_nat (unat c)) (map ((!) (alphabetSymbol this)) (sextets xs))"
  using instance_baseMap_nth(1) [OF inst] sextets_lt [of _ xs] by simp

text \<open>
  C1 (amended). For a selected range of \<open>n < 2 ^ 29\<close> bytes the buffer-domain \<open>encode\<close>
  returns the bytes of the alphabet symbols at the indices \<open>groupIndices\<close> of the range:
  four symbols for each full group of three bytes, then 2 symbols for a remainder of 1 byte,
  3 symbols for a remainder of 2 bytes, none for no remainder, and no padding marker
  anywhere. \<open>encodeToString\<close> returns the symbols at the same indices, the same data
  symbols, followed by the padding markers, 2 and 1 of them, to a length that is a
  multiple of 4.
\<close>

theorem encode_groups_without_padding:
  assumes "new_Base64 alphabet = Inr this"
    and "n = length (js_slice input start end)" and "n < 2 ^ 29"
  shows "\<exists>out data.
           encode this input start end = Inr out
         \<and> out = map ((!) (baseMapSymbol this)) (groupIndices (js_slice input start end))
         \<and> list_all (\<lambda>d. d < BASE) (groupIndices (js_slice input start end))
         \<and> length out = 4 * (n div 3) + (if n mod 3 = 0 then 0 else n mod 3 + 1)
         \<and> PADDING_BYTE \<notin> set out
         \<and> encodeToString this input start end
             = data @ replicate ((3 - n mod 3) mod 3) PADDING_CHAR
         \<and> data = map ((!) (alphabetSymbol this)) (groupIndices (js_slice input start end))
         \<and> out = map (\<lambda>c. of_nat (unat c)) data
         \<and> length data = length out
         \<and> PADDING_CHAR \<notin> set data
         \<and> length (encodeToString this input start end) mod 4 = 0"
proof -
  let ?xs = "js_slice input start end"
  let ?out = "map ((!) (baseMapSymbol this)) (groupIndices ?xs)"
  let ?data = "map ((!) (alphabetSymbol this)) (groupIndices ?xs)"
  note g = sextets_groupIndices [symmetric]
  have len: "length (groupIndices ?xs) = 4 * (n div 3) + (if n mod 3 = 0 then 0 else n mod 3 + 1)"
    unfolding g length_sextets encoded_length assms(2) ..
  have 1: "encode this input start end = Inr ?out"
    unfolding g using assms(2,3) by (intro encode_Inr) simp
  have 2: "length ?out = 4 * (n div 3) + (if n mod 3 = 0 then 0 else n mod 3 + 1)"
    using len by simp
  have 3: "PADDING_BYTE \<notin> set ?out"
    unfolding g by (rule encoded_bytes_no_padding [OF assms(1)])
  have 4: "encodeToString this input start end
             = ?data @ replicate ((3 - n mod 3) mod 3) PADDING_CHAR"
    unfolding g encodeToString_def encodeToStringSymbol_eq assms(2) ..
  have 5: "length ?data = length ?out" by simp
  have 6: "PADDING_CHAR \<notin> set ?data"
    unfolding g by (rule encoded_chars_no_padding [OF assms(1)])
  have 7: "length (encodeToString this input start end) mod 4 = 0"
    unfolding 4 using padding_length [of n] len by simp
  have 8: "?out = map (\<lambda>c. of_nat (unat c)) ?data"
    unfolding g by (rule encoded_same_symbols [OF assms(1)])
  show ?thesis
    by (intro exI [of _ ?out] exI [of _ ?data] conjI refl groupIndices_lt 1 2 3 4 5 6 7 8)
qed

theorem encode_groups_without_padding_witness:
  "new_Base64 None = Inr base64
   \<and> (1::nat) = length (js_slice [0x41 :: byte] None None) \<and> (1::nat) < 2 ^ 29
   \<and> (\<exists>out data.
           encode base64 [0x41] None None = Inr out
         \<and> out = map ((!) (baseMapSymbol base64)) (groupIndices (js_slice [0x41] None None))
         \<and> list_all (\<lambda>d. d < BASE) (groupIndices (js_slice [0x41] None None))
         \<and> length out = 4 * (1 div 3) + (if (1::nat) mod 3 = 0 then 0 else 1 mod 3 + 1)
         \<and> PADDING_BYTE \<notin> set out
         \<and> encodeToString base64 [0x41] None None
             = data @ replicate ((3 - 1 mod 3) mod 3) PADDING_CHAR
         \<and> data = map ((!) (alphabetSymbol base64)) (groupIndices (js_slice [0x41] None None))
         \<and> out = map (\<lambda>c. of_nat (unat c)) data
         \<and> length data = length out
         \<and> PADDING_CHAR \<notin> set data
         \<and> length (encodeToString base64 [0x41] None None) mod 4 = 0)
   \<and> groupIndices (js_slice [0x41] None None) = [16, 16]"
proof -
  have h1: "(1::nat) = length (js_slice [0x41 :: byte] None None)"
    by (simp add: js_slice_None)
  have h2: "(1::nat) < 2 ^ 29" by simp
  have g: "groupIndices (js_slice [0x41] None None) = [16, 16]"
    by (simp add: js_slice_None)
  show ?thesis
    using encode_groups_without_padding [OF new_Base64_None h1 h2] new_Base64_None h1 h2 g
    by blast
qed

text \<open>
  C1 as stated fails: one byte encodes to two symbols, with no padding marker, and 2 is not
  a multiple of 4.
\<close>

theorem encode_multiple_of_4_counterexample:
  "encode base64 [0x41] None None = Inr [0x51, 0x51]
   \<and> length [0x51, 0x51 :: byte] mod 4 \<noteq> 0"
  by (simp add: codec_defs js_defs base64_baseMap ALPHABET_chars Let_def replicate_numeral_Cons)

lemma decodeInt_loop_monotone:
  "0 \<le> r \<Longrightarrow> decodeInt_loop lk s i r = Inr v \<Longrightarrow> r \<le> v"
proof (induction lk s i r rule: decodeInt_loop.induct)
  case (1 lk s i r)
  show ?case
  proof (cases "i < length s")
    case False
    then show ?thesis using "1.prems" by (simp add: decodeInt_loop_end)
  next
    case True
    then obtain d where d: "lk (s ! i) = Some d"
      using "1.prems"(2) by (cases "lk (s ! i)") (simp_all add: decodeInt_loop_None)
    have "decodeInt_loop lk s (i + 1) (r * int BASE + int d) = Inr v"
      using "1.prems"(2) decodeInt_loop_Some [of i s lk d r] True d by simp
    then have "r * int BASE + int d \<le> v"
      using "1.prems"(1) by (intro "1.IH" [OF True refl d]) simp_all
    then show ?thesis using "1.prems"(1) by simp
  qed
qed

subsection \<open>Decoding a padded encoding\<close>

lemma paddingOf_encoded:
  assumes inst: "new_Base64 alphabet = Inr this"
  shows "paddingOf (map ((!) (alphabetSymbol this)) (sextets B)
                     @ replicate ((3 - length B mod 3) mod 3) PADDING_CHAR)
         = (3 - length B mod 3) mod 3"
proof -
  let ?D = "map ((!) (alphabetSymbol this)) (sextets B)"
  let ?n = "length B"
  let ?p = "(3 - ?n mod 3) mod 3"
  let ?S = "?D @ replicate ?p PADDING_CHAR"
  have lenD: "length ?D = 4 * (?n div 3) + (if ?n mod 3 = 0 then 0 else ?n mod 3 + 1)"
    unfolding length_map length_sextets encoded_length ..
  have D: "\<And>i. i < length ?D \<Longrightarrow> ?D ! i \<noteq> PADDING_CHAR"
    using encoded_chars_no_padding [OF inst, of B] by (metis nth_mem)
  consider "?n mod 3 = 0" | "?n mod 3 = 1" | "?n mod 3 = 2" by linarith
  then show ?thesis
  proof cases
    case 1
    then have S: "?S = ?D" and len: "length ?D = 4 * (?n div 3)"
      using lenD by simp_all
    show ?thesis
    proof (cases "?n div 3 = 0")
      case True
      then show ?thesis unfolding S using 1 len by (simp add: paddingOf_def)
    next
      case False
      then have "?D ! (length ?D - 1) \<noteq> PADDING_CHAR"
        using len by (intro D) simp
      then show ?thesis
        unfolding S using 1 len False by (simp add: paddingOf_def Let_def)
    qed
  next
    case 2
    then have p: "?p = 2" and len: "length ?D = 4 * (?n div 3) + 2"
      using lenD by simp_all
    have S: "?S = ?D @ [PADDING_CHAR, PADDING_CHAR]"
      unfolding p by (simp add: numeral_2_eq_2)
    have "length (?D @ [PADDING_CHAR, PADDING_CHAR]) = 4 * (?n div 3 + 1)"
      using len by simp
    then show ?thesis
      unfolding S p
      by (simp add: paddingOf_def Let_def nth_append del: length_map length_append)
        (simp add: len)
  next
    case 3
    then have p: "?p = 1" and len: "length ?D = 4 * (?n div 3) + 3"
      using lenD by simp_all
    have S: "?S = ?D @ [PADDING_CHAR]"
      unfolding p by simp
    have last: "?D ! (length ?D - 1) \<noteq> PADDING_CHAR"
      using len by (intro D) simp
    have "(?D @ [PADDING_CHAR]) ! (length ?D + 1 - 2) = ?D ! (length ?D - 1)"
      using len by (simp add: nth_append)
    then show ?thesis
      unfolding S p using last len
      by (simp add: paddingOf_def Let_def nth_append)
  qed
qed

lemma decodeFromString_encodeToString:
  assumes inst: "new_Base64 alphabet = Inr this" and "length B < 2 ^ 29"
  shows "decodeFromString this (encodeToString this B None None) None None = Inr B"
proof -
  let ?D = "map ((!) (alphabetSymbol this)) (sextets B)"
  let ?p = "(3 - length B mod 3) mod 3"
  let ?S = "?D @ replicate ?p PADDING_CHAR"
  have S: "encodeToString this B None None = ?S"
    by (simp add: encodeToString_def encodeToStringSymbol_eq js_slice_None)
  have v: "take (length ?S - paddingOf ?S) ?S = ?D"
    unfolding paddingOf_encoded [OF inst] by simp
  have len: "length ?D = (4 * length B + 2) div 3" by (simp add: length_sextets)
  have size: "new_Uint8Array (js_shr (int (length ?D) * 3) 2) = Inr (replicate (length B) 0)"
    unfolding len
    using decode_size [OF encoded_length_bound [OF assms(2)]] by (simp add: decoded_length)
  have look: "lookup_all (alphabetLookupSymbol this) InvalidCharacter 0 ?D = Inr (sextets B)"
    by (rule lookup_all_map) (simp add: instance_facts(4) [OF inst] sextets_lt)
  show ?thesis
    unfolding S decodeFromString_def decodeFromStringSymbol_eq js_slice_None Let_def v
      startIndexOf_None size look
    by (simp add: octets_sextets write_at_full)
qed

lemma decode_padding_byte:
  assumes inst: "new_Base64 alphabet = Inr this"
    and "PADDING_BYTE \<in> set (js_slice input start end)"
  shows "\<exists>e. decode this input start end = Inl e"
proof -
  obtain e where "lookup_all (\<lambda>charCode. baseMapLookupSymbol this (unat charCode)) InvalidByte
      (startIndexOf (length input) start) (js_slice input start end) = Inl e"
    using lookup_all_invalid [OF assms(2), of "\<lambda>charCode. baseMapLookupSymbol this (unat charCode)"]
      instance_PADDING_BYTE [OF inst] by blast
  then show ?thesis
    unfolding decode_eq by (simp split: sum.splits)
qed

lemma length_octets2: "length (octets2 i j k) = 2"
  by (simp add: octets2_def Let_def)

lemma length_octets1: "length (octets1 i j) = 1"
  by (simp add: octets1_def Let_def)

lemma length_octets: "length (octets ds) = (3 * length ds) div 4"
proof (induction ds rule: octets.induct)
  case (1 i j k l ds)
  have "(3 * length (i # j # k # l # ds)) div 4 = 3 + (3 * length ds) div 4"
    by simp
  then show ?case using 1 by (simp add: length_octets3)
qed (simp_all add: length_octets2 length_octets1)

lemma write_at_octets:
  "write_at 0 (octets ds) (replicate ((3 * length ds) div 4) 0) = octets ds"
  by (simp add: write_at_full length_octets)

lemma decodeFromString_eq:
  assumes "length (js_slice string start end) < 2 ^ 29"
  shows "decodeFromString this string start end =
     (case lookup_all (alphabetLookupSymbol this) InvalidCharacter
             (startIndexOf (length string) start)
             (take (length (js_slice string start end) - paddingOf (js_slice string start end))
                (js_slice string start end)) of
        Inl e \<Rightarrow> Inl e
      | Inr ds \<Rightarrow> Inr (octets ds))"
proof -
  let ?xs = "js_slice string start end"
  let ?v = "take (length ?xs - paddingOf ?xs) ?xs"
  let ?look = "lookup_all (alphabetLookupSymbol this) InvalidCharacter
      (startIndexOf (length string) start) ?v"
  have "length ?v \<le> length ?xs" by simp
  then have "3 * length ?v < 2 ^ 31" using assms by simp
  then have size: "new_Uint8Array (js_shr (int (length ?v) * 3) 2)
      = Inr (replicate ((3 * length ?v) div 4) 0)"
    by (rule decode_size)
  have eq: "decodeFromString this string start end =
      (case ?look of
         Inl e \<Rightarrow> Inl e
       | Inr ds \<Rightarrow> Inr (write_at 0 (octets ds) (replicate ((3 * length ?v) div 4) 0)))"
    unfolding decodeFromString_def decodeFromStringSymbol_eq Let_def size sum.case ..
  show ?thesis
  proof (cases ?look)
    case (Inl e)
    show ?thesis unfolding eq Inl sum.case ..
  next
    case (Inr ds)
    have L: "length ?v = length ds" using Inr by (rule lookup_all_length [symmetric])
    show ?thesis unfolding eq Inr sum.case L write_at_octets ..
  qed
qed

lemma decode_eq_octets:
  assumes "length (js_slice input start end) < 2 ^ 29"
  shows "decode this input start end =
     (case lookup_all (\<lambda>charCode. baseMapLookupSymbol this (unat charCode)) InvalidByte
             (startIndexOf (length input) start) (js_slice input start end) of
        Inl e \<Rightarrow> Inl e
      | Inr ds \<Rightarrow> Inr (octets ds))"
proof -
  let ?xs = "js_slice input start end"
  let ?look = "lookup_all (\<lambda>charCode. baseMapLookupSymbol this (unat charCode)) InvalidByte
      (startIndexOf (length input) start) ?xs"
  have "3 * length ?xs < 2 ^ 31" using assms by simp
  then have size: "new_Uint8Array (js_shr (int (length ?xs) * 3) 2)
      = Inr (replicate ((3 * length ?xs) div 4) 0)"
    by (rule decode_size)
  have eq: "decode this input start end =
      (case ?look of
         Inl e \<Rightarrow> Inl e
       | Inr ds \<Rightarrow> Inr (write_at 0 (octets ds) (replicate ((3 * length ?xs) div 4) 0)))"
    unfolding decode_eq size sum.case ..
  show ?thesis
  proof (cases ?look)
    case (Inl e)
    show ?thesis unfolding eq Inl sum.case ..
  next
    case (Inr ds)
    have L: "length ?xs = length ds" using Inr by (rule lookup_all_length [symmetric])
    show ?thesis unfolding eq Inr sum.case L write_at_octets ..
  qed
qed

lemma paddingOf_le_2: "paddingOf xs \<le> 2"
  unfolding paddingOf_def Let_def by simp

text \<open>
  C2 (amended). \<open>decodeFromString\<close> determines the padding count, 0, 1 or 2, from the last
  two positions of the selected range when the length of that range is a multiple of 4,
  \<open>paddingOf\<close> of the range, and decodes the range without that many final characters;
  so a padded encoding, the result of \<open>encodeToString\<close>, decodes to the original bytes.
  The buffer-domain \<open>decode\<close> looks up every byte of the selected range: a range that
  contains the byte of the padding marker is rejected.
\<close>

theorem decode_padding:
  assumes "new_Base64 alphabet = Inr this"
  shows "(length (js_slice string start end) < 2 ^ 29 \<longrightarrow>
            decodeFromString this string start end =
              (case lookup_all (alphabetLookupSymbol this) InvalidCharacter
                      (startIndexOf (length string) start)
                      (take (length (js_slice string start end)
                               - paddingOf (js_slice string start end))
                         (js_slice string start end)) of
                 Inl e \<Rightarrow> Inl e
               | Inr ds \<Rightarrow> Inr (octets ds)))
       \<and> paddingOf (js_slice string start end) \<le> 2
       \<and> (length (js_slice input start end) < 2 ^ 29 \<longrightarrow>
            decode this input start end =
              (case lookup_all (\<lambda>charCode. baseMapLookupSymbol this (unat charCode)) InvalidByte
                      (startIndexOf (length input) start) (js_slice input start end) of
                 Inl e \<Rightarrow> Inl e
               | Inr ds \<Rightarrow> Inr (octets ds)))
       \<and> (PADDING_BYTE \<in> set (js_slice input start end) \<longrightarrow>
            (\<exists>e. decode this input start end = Inl e))
       \<and> (length B < 2 ^ 29 \<longrightarrow>
            decodeFromString this (encodeToString this B None None) None None = Inr B)"
  using decode_padding_byte [OF assms] decodeFromString_encodeToString [OF assms]
    decodeFromString_eq decode_eq_octets paddingOf_le_2
  by blast

theorem decode_padding_witness:
  "new_Base64 None = Inr base64
   \<and> length (js_slice (jsstr ''QQ==QUJD'') (Some (Finite 0)) (Some (Finite 4))) < 2 ^ 29
   \<and> paddingOf (js_slice (jsstr ''QQ==QUJD'') (Some (Finite 0)) (Some (Finite 4))) = 2
   \<and> decodeFromString base64 (jsstr ''QQ==QUJD'') (Some (Finite 0)) (Some (Finite 4))
       = Inr [0x41]
   \<and> length (js_slice (bytestr ''QQ==QUJD'') (Some (Finite 0)) (Some (Finite 4))) < 2 ^ 29
   \<and> PADDING_BYTE \<in> set (js_slice (bytestr ''QQ==QUJD'') (Some (Finite 0)) (Some (Finite 4)))
   \<and> decode base64 (bytestr ''QQ==QUJD'') (Some (Finite 0)) (Some (Finite 4))
       = Inl (SyntaxError (InvalidByte 0x3D 2))
   \<and> length [0x41 :: byte] < 2 ^ 29
   \<and> decodeFromString base64 (encodeToString base64 [0x41] None None) None None = Inr [0x41]"
proof -
  let ?S = "jsstr ''QQ==QUJD''" and ?I = "bytestr ''QQ==QUJD''"
  let ?s = "Some (Finite 0)" and ?e = "Some (Finite 4)"
  have S: "js_slice ?S ?s ?e = jsstr ''QQ==''"
    by (simp add: js_slice_def jsstr_def)
  have I: "js_slice ?I ?s ?e = bytestr ''QQ==''"
    by (simp add: js_slice_def bytestr_def)
  have k: "startIndexOf (length ?S) ?s = 0" "startIndexOf (length ?I) ?s = 0"
    by (simp_all add: js_defs)
  have h1: "length (js_slice ?S ?s ?e) < 2 ^ 29"
    unfolding S by (simp add: jsstr_def)
  have h2: "length (js_slice ?I ?s ?e) < 2 ^ 29"
    unfolding I by (simp add: bytestr_def)
  have h3: "PADDING_BYTE \<in> set (js_slice ?I ?s ?e)"
    unfolding I by (simp add: bytestr_def PADDING_BYTE_def PADDING_CHAR_def jschr_def)
  have p: "paddingOf (js_slice ?S ?s ?e) = 2"
    unfolding S by (simp add: paddingOf_def jsstr_def jschr_def PADDING_CHAR_def)
  have v1: "(case lookup_all (alphabetLookupSymbol base64) InvalidCharacter
                  (startIndexOf (length ?S) ?s)
                  (take (length (js_slice ?S ?s ?e) - paddingOf (js_slice ?S ?s ?e))
                     (js_slice ?S ?s ?e)) of
              Inl e \<Rightarrow> Inl e
            | Inr ds \<Rightarrow> Inr (octets ds)) = Inr [0x41]"
    unfolding p k unfolding S
    by (simp add: jsstr_def base64_lookup ALPHABET_chars octets1_def js_defs Let_def)
  have v2: "(case lookup_all (\<lambda>charCode. baseMapLookupSymbol base64 (unat charCode)) InvalidByte
                  (startIndexOf (length ?I) ?s) (js_slice ?I ?s ?e) of
              Inl e \<Rightarrow> Inl e
            | Inr ds \<Rightarrow> Inr (octets ds)) = Inl (SyntaxError (InvalidByte 0x3D 2))"
    unfolding k unfolding I
    by (simp add: bytestr_def base64_baseMapLookup ALPHABET_chars Let_def)
  note T = decode_padding [OF new_Base64_None, of ?S ?s ?e ?I "[0x41]"]
  have d1: "decodeFromString base64 ?S ?s ?e = Inr [0x41]"
    using T h1 unfolding v1 by blast
  have d2: "decode base64 ?I ?s ?e = Inl (SyntaxError (InvalidByte 0x3D 2))"
    using T h2 unfolding v2 by blast
  have d3: "decodeFromString base64 (encodeToString base64 [0x41] None None) None None
      = Inr [0x41]"
    using T by simp
  show ?thesis
    using new_Base64_None h1 p d1 h2 h3 d2 d3 by simp
qed

text \<open>
  C2 as stated fails: the buffer-domain \<open>decode\<close> of the bytes of \<open>QQ==\<close> raises
  \<open>SyntaxError\<close> for the byte of the padding marker at index 2.
\<close>

theorem decode_padding_counterexample:
  "decode base64 (bytestr ''QQ=='') None None = Inl (SyntaxError (InvalidByte 0x3D 2))
   \<and> decodeFromString base64 (jsstr ''QQ=='') None None = Inr [0x41]"
  by (simp add: codec_defs js_defs base64_baseMapLookup base64_lookup ALPHABET_chars Let_def
      bytestr_def PADDING_CHAR_def replicate_numeral_Cons)

subsection \<open>The range arguments\<close>

lemma encode_range:
  "encode this input start end = encode this (js_slice input start end) None None"
  unfolding encode_eq js_slice_None ..

lemma encodeToStringSymbol_range:
  "encodeToStringSymbol this input start end =
   encodeToStringSymbol this (js_slice input start end) None None"
  unfolding encodeToStringSymbol_eq js_slice_None ..

lemma new_Uint8Array_error:
  "new_Uint8Array len = Inl e \<Longrightarrow> error_at_offset k e = e"
  by (auto simp: new_Uint8Array_def split: if_splits)

lemma decode_range:
  "decode this input start end =
   result_at_offset (startIndexOf (length input) start)
     (decode this (js_slice input start end) None None)"
proof -
  let ?k = "startIndexOf (length input) start"
  have "lookup_all lk InvalidByte (?k + 0) xs
        = result_at_offset ?k (lookup_all lk InvalidByte 0 xs)"
    for lk and xs :: "byte list"
    by (rule lookup_all_offset) simp
  then have off: "lookup_all lk InvalidByte ?k xs
        = result_at_offset ?k (lookup_all lk InvalidByte 0 xs)"
    for lk and xs :: "byte list"
    by simp
  show ?thesis
    unfolding decode_eq js_slice_None startIndexOf_None off
    by (auto simp: result_at_offset_def new_Uint8Array_error split: sum.splits)
qed

lemma decodeFromStringSymbol_range:
  "decodeFromStringSymbol this string start end =
   result_at_offset (startIndexOf (length string) start)
     (decodeFromStringSymbol this (js_slice string start end) None None)"
proof -
  let ?k = "startIndexOf (length string) start"
  have "lookup_all lk InvalidCharacter (?k + 0) xs
        = result_at_offset ?k (lookup_all lk InvalidCharacter 0 xs)"
    for lk and xs :: jsstring
    by (rule lookup_all_offset) simp
  then have off: "lookup_all lk InvalidCharacter ?k xs
        = result_at_offset ?k (lookup_all lk InvalidCharacter 0 xs)"
    for lk and xs :: jsstring
    by simp
  show ?thesis
    unfolding decodeFromStringSymbol_eq js_slice_None startIndexOf_None off
    by (auto simp: result_at_offset_def Let_def new_Uint8Array_error split: sum.splits)
qed

lemma encode_Nil: "encode this [] None None = Inr []"
  by (simp add: encode_eq js_slice_None js_defs)

lemma decode_Nil: "decode this [] None None = Inr []"
  by (simp add: decode_eq js_slice_None js_defs)

lemma encodeToStringSymbol_Nil: "encodeToStringSymbol this [] None None = []"
  by (simp add: encodeToStringSymbol_eq js_slice_None)

lemma decodeFromStringSymbol_Nil: "decodeFromStringSymbol this [] None None = Inr []"
  by (simp add: decodeFromStringSymbol_eq js_slice_None js_defs paddingOf_def)

text \<open>
  C8 (amended). With range arguments, \<open>encode\<close> and \<open>encodeToString\<close> return what they return
  without them on the slice of the input, and so do \<open>decode\<close>, \<open>decodeFromString\<close> and
  \<open>decodeText\<close> when they succeed; when they fail, the error is that of the slice with the
  position counted in the whole input. An empty selection gives the empty output.
  \<open>encodeText\<close> applies the range to the UTF-8 bytes of the text, not to its characters.
\<close>

theorem range_selects_slice:
  fixes input :: "byte list" and string :: jsstring
  shows "encode this input start end = encode this (js_slice input start end) None None
       \<and> encodeToString this input start end
           = encodeToString this (js_slice input start end) None None
       \<and> decode this input start end
           = result_at_offset (startIndexOf (length input) start)
               (decode this (js_slice input start end) None None)
       \<and> decodeFromString this string start end
           = result_at_offset (startIndexOf (length string) start)
               (decodeFromString this (js_slice string start end) None None)
       \<and> decodeText uint8ArrayToString this string start end
           = result_at_offset (startIndexOf (length string) start)
               (decodeText uint8ArrayToString this (js_slice string start end) None None)
       \<and> encodeText this string start end
           = encodeToString this (js_slice (stringToUint8Array string) start end) None None
       \<and> (js_slice input start end = [] \<longrightarrow>
            encode this input start end = Inr [] \<and> decode this input start end = Inr []
            \<and> encodeToString this input start end = [])
       \<and> (js_slice string start end = [] \<longrightarrow>
            decodeFromString this string start end = Inr []
            \<and> decodeText uint8ArrayToString this string start end = Inr (uint8ArrayToString []))"
proof -
  let ?k = "startIndexOf (length string) start"
  have dt: "decodeText uint8ArrayToString this string start end
           = result_at_offset ?k
               (decodeText uint8ArrayToString this (js_slice string start end) None None)"
    unfolding decodeText_def decodeFromStringSymbol_range [of this string start "end"]
    by (simp add: result_at_offset_def split: sum.splits)
  have e1: "js_slice input start end = [] \<Longrightarrow>
      encode this input start end = Inr [] \<and> decode this input start end = Inr []
      \<and> encodeToString this input start end = []"
    unfolding encodeToString_def encode_range [of this input start "end"]
      decode_range [of this input start "end"]
      encodeToStringSymbol_range [of this input start "end"]
    by (simp add: encode_Nil decode_Nil encodeToStringSymbol_Nil result_at_offset_def)
  have e2: "js_slice string start end = [] \<Longrightarrow>
      decodeFromString this string start end = Inr []
      \<and> decodeText uint8ArrayToString this string start end = Inr (uint8ArrayToString [])"
    unfolding decodeFromString_def dt decodeText_def
      decodeFromStringSymbol_range [of this string start "end"]
    by (simp add: decodeFromStringSymbol_Nil result_at_offset_def)
  show ?thesis
    using encode_range [of this input start "end"]
      encodeToStringSymbol_range [of this input start "end"]
      decode_range [of this input start "end"]
      decodeFromStringSymbol_range [of this string start "end"]
      encodeToStringSymbol_range [of this "stringToUint8Array string" start "end"]
      dt e1 e2
    unfolding encodeToString_def decodeFromString_def encodeText_def
    by blast
qed

theorem range_selects_slice_witness:
  "js_slice (bytestr ''QUJD'') (Some (Finite 3)) (Some (Finite 1)) = []
   \<and> encode base64 (bytestr ''QUJD'') (Some (Finite 3)) (Some (Finite 1)) = Inr []
   \<and> decode base64 (bytestr ''QUJD'') (Some (Finite 3)) (Some (Finite 1)) = Inr []
   \<and> encodeToString base64 (bytestr ''QUJD'') (Some (Finite 3)) (Some (Finite 1)) = []
   \<and> js_slice (jsstr ''QUJD'') (Some (Finite 3)) (Some (Finite 1)) = []
   \<and> decodeFromString base64 (jsstr ''QUJD'') (Some (Finite 3)) (Some (Finite 1)) = Inr []"
proof -
  have h1: "js_slice (bytestr ''QUJD'') (Some (Finite 3)) (Some (Finite 1)) = []"
    by (simp add: js_slice_def bytestr_def)
  have h2: "js_slice (jsstr ''QUJD'') (Some (Finite 3)) (Some (Finite 1)) = []"
    by (simp add: js_slice_def jsstr_def)
  show ?thesis
    using range_selects_slice [of base64 "bytestr ''QUJD''" "Some (Finite 3)" "Some (Finite 1)"
        "jsstr ''QUJD''" "\<lambda>bytes. []"]
      h1 h2
    by blast
qed

text \<open>
  C8 as stated fails for \<open>encodeText\<close>: on the one-character text U+00E9, whose UTF-8 bytes
  are C3 A9, the range from 0 to 1 selects the first byte, while the slice from 0 to 1 of
  the text is the whole text.
\<close>

theorem encodeText_range_counterexample:
  "encodeText base64 [0xE9] (Some (Finite 0)) (Some (Finite 1)) = jsstr ''ww==''
   \<and> encodeText base64 (js_slice [0xE9] (Some (Finite 0)) (Some (Finite 1))) None None
       = jsstr ''w6k=''"
  by (simp add: codec_defs js_defs js_slice_def base64_alphabet ALPHABET_chars Let_def
      PADDING_CHAR_def utf8_2_def replicate_numeral_Cons)

text \<open>
  C9. The vectors of the default instance: the bytes 00 02 04 08 0f 1f 3f 7f ff encode to
  the bytes, and to the string, \<open>AAIECA8fP3//\<close>; the text \<open>Ave, Darkwolf!\<close> encodes to
  \<open>QXZlLCBEYXJrd29sZiE=\<close>; the largest safe integer encodes to \<open>f////////\<close>, which decodes to
  it.
\<close>

theorem concrete_vectors:
  "encode base64 [0x00, 0x02, 0x04, 0x08, 0x0f, 0x1f, 0x3f, 0x7f, 0xff] None None
     = Inr (bytestr ''AAIECA8fP3//'')
   \<and> encodeToString base64 [0x00, 0x02, 0x04, 0x08, 0x0f, 0x1f, 0x3f, 0x7f, 0xff] None None
     = jsstr ''AAIECA8fP3//''
   \<and> encodeText base64 (jsstr ''Ave, Darkwolf!'') None None = jsstr ''QXZlLCBEYXJrd29sZiE=''
   \<and> encodeInt base64 (Finite 9007199254740991) = Inr (jsstr ''f////////'')
   \<and> decodeInt base64 (jsstr ''f////////'') = Inr 9007199254740991"
proof (intro conjI)
  show "encode base64 [0x00, 0x02, 0x04, 0x08, 0x0f, 0x1f, 0x3f, 0x7f, 0xff] None None
     = Inr (bytestr ''AAIECA8fP3//'')"
    by (simp add: codec_defs js_defs base64_baseMap ALPHABET_chars Let_def bytestr_def
        replicate_numeral_Cons)
  show "encodeToString base64 [0x00, 0x02, 0x04, 0x08, 0x0f, 0x1f, 0x3f, 0x7f, 0xff] None None
     = jsstr ''AAIECA8fP3//''"
    by (simp add: codec_defs js_defs base64_alphabet ALPHABET_chars Let_def)
  show "encodeText base64 (jsstr ''Ave, Darkwolf!'') None None = jsstr ''QXZlLCBEYXJrd29sZiE=''"
    by (simp add: codec_defs js_defs base64_alphabet ALPHABET_chars Let_def PADDING_CHAR_def
        replicate_numeral_Cons)
  show "encodeInt base64 (Finite 9007199254740991) = Inr (jsstr ''f////////'')"
    by (simp add: base64_alphabet NumberMIN_SAFE_INTEGER_def NumberMAX_SAFE_INTEGER_def
        encodeInt_loop.simps ALPHABET_chars)
  show "decodeInt base64 (jsstr ''f////////'') = Inr 9007199254740991"
    by (simp add: decodeInt_def base64_lookup ALPHABET_chars decodeInt_loop.simps
        NEGATIVE_CHAR_def Let_def)
qed

end
